theory Spec2Isabelle
  imports Complex_Main
begin

section \<open>Text as Python has it\<close>

text \<open>
  A Python \<open>str\<close> is a sequence of Unicode code points, so a line is a list of
  natural numbers. The serial bytes are decoded with \<open>errors='replace'\<close> before
  anything else happens; the model starts from the decoded text.
\<close>

type_synonym pystr = "nat list"

definition cps :: "string \<Rightarrow> pystr" where
  "cps s = map of_char s"

text \<open>
  Two builtins consult the Unicode tables of the interpreter: \<open>float\<close> and
  \<open>str.lower\<close>. They are not code of this program, so they are parameters of the
  model: \<open>float_accepts s\<close> says that \<open>float(s)\<close> returns instead of raising
  \<open>ValueError\<close>, and \<open>str_lower\<close> is \<open>str.lower\<close>.
\<close>

record runtime =
  float_accepts :: "pystr \<Rightarrow> bool"
  str_lower :: "pystr \<Rightarrow> pystr"

text \<open>\<open>str.strip()\<close> without argument removes the characters of \<open>str.isspace\<close> at both ends.\<close>

definition is_space :: "nat \<Rightarrow> bool" where
  "is_space c \<longleftrightarrow>
     (9 \<le> c \<and> c \<le> 13) \<or> (28 \<le> c \<and> c \<le> 32) \<or> c = 133 \<or> c = 160 \<or> c = 5760 \<or>
     (8192 \<le> c \<and> c \<le> 8202) \<or> c = 8232 \<or> c = 8233 \<or> c = 8239 \<or> c = 8287 \<or> c = 12288"

definition py_lstrip :: "pystr \<Rightarrow> pystr" where
  "py_lstrip s = dropWhile is_space s"

definition py_rstrip :: "pystr \<Rightarrow> pystr" where
  "py_rstrip s = rev (dropWhile is_space (rev s))"

definition py_strip :: "pystr \<Rightarrow> pystr" where
  "py_strip s = py_rstrip (py_lstrip s)"

text \<open>\<open>re.sub(r'[\x00-\x1f\x7f-\x9f]', '', s)\<close>: every code point of the two ranges is deleted.\<close>

definition is_control :: "nat \<Rightarrow> bool" where
  "is_control c \<longleftrightarrow> c \<le> 31 \<or> (127 \<le> c \<and> c \<le> 159)"

definition strip_control :: "pystr \<Rightarrow> pystr" where
  "strip_control s = filter (\<lambda>c. \<not> is_control c) s"

text \<open>The cleaning both \<open>is_csv_data_line\<close> and \<open>clean_csv_line\<close> start with.\<close>

definition clean_text :: "pystr \<Rightarrow> pystr" where
  "clean_text line = strip_control (py_strip line)"

text \<open>\<open>k in s\<close> on strings: \<open>k\<close> occurs in \<open>s\<close> as a contiguous piece.\<close>

definition starts_with :: "pystr \<Rightarrow> pystr \<Rightarrow> bool" where
  "starts_with k s \<longleftrightarrow> take (length k) s = k"

fun contains :: "pystr \<Rightarrow> pystr \<Rightarrow> bool" where
  "contains k [] = (k = [])"
| "contains k (c # cs) = (starts_with k (c # cs) \<or> contains k cs)"

text \<open>
  \<open>s.split(sep)\<close> with a one-character separator. The result is never the empty list, so
  the last branch of the \<open>case\<close> is never taken.
\<close>

fun split_on :: "nat \<Rightarrow> pystr \<Rightarrow> pystr list" where
  "split_on sep [] = [[]]"
| "split_on sep (c # cs) =
     (if c = sep then [] # split_on sep cs
      else (case split_on sep cs of
              p # ps \<Rightarrow> (c # p) # ps
            | [] \<Rightarrow> [[c]]))"

definition comma :: nat where
  "comma = 44"

section \<open>The program\<close>

definition EXPECTED_HEADER :: "pystr list" where
  "EXPECTED_HEADER = map cps
     [''AccX'', ''AccY'', ''AccZ'', ''GyroX'', ''GyroY'', ''GyroZ'', ''Roll'', ''Pitch'', ''YawIMU'',
      ''MagX'', ''MagY'', ''MagZ'', ''Lat'', ''Lon'', ''Alt'', ''Speed'', ''Course'', ''Sats'',
      ''PDOP'', ''HDOP'', ''VDOP'']"

definition is_numeric :: "runtime \<Rightarrow> pystr \<Rightarrow> bool" where
  "is_numeric rt s = float_accepts rt s"

subsection \<open>\<open>clean_csv_line\<close>\<close>

text \<open>
  The inner loop appends the parts of \<open>candidate_parts[:len(EXPECTED_HEADER)]\<close> while they
  are numeric and breaks at the first that is not.
\<close>

definition numeric_run :: "runtime \<Rightarrow> pystr list \<Rightarrow> pystr list" where
  "numeric_run rt candidate_parts =
     takeWhile (is_numeric rt) (take (length EXPECTED_HEADER) candidate_parts)"

text \<open>The body of the outer loop at offset \<open>i\<close>: \<open>Some\<close> is the \<open>return\<close>.\<close>

definition try_offset :: "runtime \<Rightarrow> pystr list \<Rightarrow> nat \<Rightarrow> pystr list option" where
  "try_offset rt parts i =
     (let candidate_parts = drop i parts in
      if length candidate_parts \<ge> length EXPECTED_HEADER then
        (let numeric_parts = numeric_run rt candidate_parts in
         if length numeric_parts \<ge> length EXPECTED_HEADER
         then Some (take (length EXPECTED_HEADER) numeric_parts)
         else None)
      else None)"

text \<open>\<open>for i in range(len(parts))\<close>, from offset \<open>i\<close> on; falling out of the loop is \<open>None\<close>.\<close>

function scan_from :: "runtime \<Rightarrow> pystr list \<Rightarrow> nat \<Rightarrow> pystr list option" where
  "scan_from rt parts i =
     (if i < length parts then
        (case try_offset rt parts i of
           Some r \<Rightarrow> Some r
         | None \<Rightarrow> scan_from rt parts (Suc i))
      else None)"
  by pat_completeness auto
termination
  by (relation "measure (\<lambda>(rt, parts, i). length parts - i)") auto

declare scan_from.simps [simp del]

definition csv_parts :: "pystr \<Rightarrow> pystr list" where
  "csv_parts line = map py_strip (split_on comma (clean_text line))"

definition clean_csv_line :: "runtime \<Rightarrow> pystr \<Rightarrow> pystr list option" where
  "clean_csv_line rt line = scan_from rt (csv_parts line) 0"

subsection \<open>\<open>is_csv_data_line\<close>\<close>

definition NOISE_KEYWORDS :: "pystr list" where
  "NOISE_KEYWORDS = map cps
     [''hello'', ''error'', ''system'', ''baud'', ''find'', ''sensor'', ''connection'', ''boot'',
      ''rudder'', ''propeller'', ''zero'', ''unknown'', ''command'']"

text \<open>\<open>any(keyword in cleaned_line.lower() for keyword in [...])\<close>\<close>

definition has_noise_keyword :: "runtime \<Rightarrow> pystr \<Rightarrow> bool" where
  "has_noise_keyword rt cleaned_line =
     list_ex (\<lambda>keyword. contains keyword (str_lower rt cleaned_line)) NOISE_KEYWORDS"

text \<open>
  \<open>len(parts) * 0.8\<close> is a product of two IEEE doubles. The literal \<open>0.8\<close> is the double
  \<open>7205759403792794 / 2^53\<close>; a length below \<open>2^53\<close> converts exactly; the exact product
  is rounded to 53 significant bits, ties to even. \<open>bit_length\<close> is Python's
  \<open>int.bit_length\<close>.
\<close>

function bit_length :: "int \<Rightarrow> nat" where
  "bit_length n = (if n \<le> 0 then 0 else Suc (bit_length (n div 2)))"
  by pat_completeness auto
termination
  by (relation "measure nat") auto

declare bit_length.simps [simp del]

definition double_0_8_mantissa :: int where
  "double_0_8_mantissa = 7205759403792794"

definition round_half_even :: "int \<Rightarrow> nat \<Rightarrow> int" where
  "round_half_even m shift =
     (let q = m div 2 ^ shift; r = m mod 2 ^ shift in
      if 2 * r > 2 ^ shift \<or> (2 * r = 2 ^ shift \<and> odd q) then q + 1 else q)"

definition times_0_8 :: "nat \<Rightarrow> rat" where
  "times_0_8 n =
     (let m = int n * double_0_8_mantissa; shift = bit_length m - 53 in
      of_int (round_half_even m shift * 2 ^ shift) / 2 ^ 53)"

text \<open>
  The comparison \<open>numeric_count < len(parts) * 0.8\<close> of an \<open>int\<close> with a \<open>float\<close> is
  exact in Python, so it is the comparison of the two values as rationals.
\<close>

definition is_csv_data_line :: "runtime \<Rightarrow> pystr \<Rightarrow> bool" where
  "is_csv_data_line rt line =
     (let cleaned_line = clean_text line in
      if has_noise_keyword rt cleaned_line then False
      else
        (let parts = split_on comma cleaned_line in
         if length parts < 15 \<or> length parts > 25 then False
         else
           (let numeric_count = length (filter (\<lambda>part. is_numeric rt (py_strip part)) parts) in
            if of_nat numeric_count < times_0_8 (length parts) then False
            else True)))"

subsection \<open>The four classes of a line\<close>

text \<open>
  The program has no classification type: a line is a header line when \<open>main\<close> finds the
  marker in it, and otherwise \<open>is_csv_data_line\<close> leaves through one of four
  \<open>return\<close> statements. \<open>classify_data\<close> names them: the keyword exit is \<open>Noise\<close>,
  the width exit and the numeric-share exit are \<open>Unrecognized\<close>, \<open>return True\<close> is
  \<open>Candidate\<close>. \<open>classify\<close> puts the marker test of \<open>main\<close> in front.
\<close>

datatype classification = Header | Noise | Candidate | Unrecognized

definition classify_data :: "runtime \<Rightarrow> pystr \<Rightarrow> classification" where
  "classify_data rt line =
     (let cleaned_line = clean_text line in
      if has_noise_keyword rt cleaned_line then Noise
      else
        (let parts = split_on comma cleaned_line in
         if length parts < 15 \<or> length parts > 25 then Unrecognized
         else
           (let numeric_count = length (filter (\<lambda>part. is_numeric rt (py_strip part)) parts) in
            if of_nat numeric_count < times_0_8 (length parts) then Unrecognized
            else Candidate)))"

definition MARKER :: pystr where
  "MARKER = cps ''AccX,AccY,AccZ''"

definition classify :: "runtime \<Rightarrow> pystr \<Rightarrow> classification" where
  "classify rt line = (if contains MARKER line then Header else classify_data rt line)"

subsection \<open>The ingestion loop of \<open>main\<close>\<close>

text \<open>
  \<open>time.time()\<close> returns a double, and \<open>current_time - last_summary_time\<close> is the
  difference of two doubles. A clock reading is the rational number its double stands
  for; the difference is the exact difference rounded to 53 significant bits, ties to
  even, on the subnormal grid below \<open>2^-1022\<close>. A difference beyond the range of a
  double is infinite in Python and stays finite here, which the comparison with 15
  does not tell apart. \<open>binade x\<close> is the exponent of the power of two at or below a
  positive \<open>x\<close>.
\<close>

definition pow2 :: "int \<Rightarrow> rat" where
  "pow2 e = (if 0 \<le> e then 2 ^ nat e else 1 / 2 ^ nat (- e))"

definition binade :: "rat \<Rightarrow> int" where
  "binade x =
     (case quotient_of x of
        (p, q) \<Rightarrow>
          (let d = int (bit_length p) - int (bit_length q) in
           if pow2 d \<le> x then d else d - 1))"

definition round_to_double :: "rat \<Rightarrow> rat" where
  "round_to_double x =
     (if x = 0 then 0
      else
        (let a = \<bar>x\<bar>;
             quantum = pow2 (max (binade a) (- 1022) - 52);
             y = a / quantum;
             f = \<lfloor>y\<rfloor>;
             n = (if y - of_int f > 1 / 2 \<or> (y - of_int f = 1 / 2 \<and> odd f) then f + 1 else f)
         in sgn x * of_int n * quantum))"

definition float_sub :: "rat \<Rightarrow> rat \<Rightarrow> rat" where
  "float_sub a b = round_to_double (a - b)"

text \<open>The state the loop keeps: the local \<open>header_written\<close> and the two globals.\<close>

record session =
  header_written :: bool
  csv_message_count :: nat
  last_summary_time :: rat

text \<open>
  One turn of \<open>while True\<close>. Either nothing is waiting on the port, or a line is read;
  the event of a line carries the decoded text and what the two clocks would answer
  if asked in this turn: \<open>datetime.now().isoformat()\<close> and \<open>time.time()\<close>.
\<close>

datatype event = Idle | Line pystr pystr rat

text \<open>
  What a turn does to the outside: the two \<open>writer.writerow\<close> calls (the data row is
  flushed at once) and the four \<open>print\<close> calls. \<open>Summary n\<close> is the line
  \<open>[CSV] Received n messages in the last 15 seconds\<close>.
\<close>

datatype effect =
    HeaderRow "pystr list"
  | HeaderNotice
  | DataRow "pystr list"
  | Summary nat
  | ParseError pystr
  | Stm32 pystr

definition TIMESTAMP :: pystr where
  "TIMESTAMP = cps ''Timestamp''"

definition main_step :: "runtime \<Rightarrow> session \<Rightarrow> event \<Rightarrow> session \<times> effect list" where
  "main_step rt st ev =
     (case ev of
        Idle \<Rightarrow> (st, [])
      | Line raw stamp current_time \<Rightarrow>
          (let line = py_strip raw in
           if line = [] then (st, [])
           else if contains MARKER line \<and> \<not> header_written st then
             (st\<lparr>header_written := True\<rparr>, [HeaderRow (TIMESTAMP # EXPECTED_HEADER), HeaderNotice])
           else if contains MARKER line \<and> header_written st then (st, [])
           else if is_csv_data_line rt line then
             (case clean_csv_line rt line of
                None \<Rightarrow> (st, [ParseError line])
              | Some cleaned_data \<Rightarrow>
                  if cleaned_data = [] then (st, [ParseError line])
                  else
                    (let count = csv_message_count st + 1 in
                     if float_sub current_time (last_summary_time st) \<ge> 15 then
                       (st\<lparr>csv_message_count := 0, last_summary_time := current_time\<rparr>,
                        [DataRow (stamp # cleaned_data), Summary count])
                     else
                       (st\<lparr>csv_message_count := count\<rparr>, [DataRow (stamp # cleaned_data)])))
           else (st, [Stm32 line])))"

text \<open>The loop over the turns that happen before the interrupt, with everything it emitted.\<close>

fun main_loop :: "runtime \<Rightarrow> session \<Rightarrow> event list \<Rightarrow> session \<times> effect list" where
  "main_loop rt st [] = (st, [])"
| "main_loop rt st (ev # evs) =
     (case main_step rt st ev of
        (st', out) \<Rightarrow> (case main_loop rt st' evs of (st'', outs) \<Rightarrow> (st'', out @ outs)))"

text \<open>The session at the start of \<open>main\<close>; \<open>t0\<close> is the clock reading at module load.\<close>

definition initial_session :: "rat \<Rightarrow> session" where
  "initial_session t0 = \<lparr>header_written = False, csv_message_count = 0, last_summary_time = t0\<rparr>"

subsection \<open>An interpreter instance for ASCII text\<close>

text \<open>
  To run the model on examples, \<open>ascii_runtime\<close> gives the two builtins on ASCII text:
  \<open>float\<close> accepts, between optional blanks, an optional sign followed by \<open>inf\<close>,
  \<open>infinity\<close> or \<open>nan\<close> in any case, or by digits with an optional point and an optional
  exponent, where single underscores may stand between digits; \<open>lower\<close> maps \<open>A\<close>..\<open>Z\<close>
  to \<open>a\<close>..\<open>z\<close>.
\<close>

definition is_digit :: "nat \<Rightarrow> bool" where
  "is_digit c \<longleftrightarrow> 48 \<le> c \<and> c \<le> 57"

definition is_ascii_space :: "nat \<Rightarrow> bool" where
  "is_ascii_space c \<longleftrightarrow> (9 \<le> c \<and> c \<le> 13) \<or> c = 32"

definition ascii_lower_char :: "nat \<Rightarrow> nat" where
  "ascii_lower_char c = (if 65 \<le> c \<and> c \<le> 90 then c + 32 else c)"

definition drop_sign :: "pystr \<Rightarrow> pystr" where
  "drop_sign s = (case s of [] \<Rightarrow> [] | c # cs \<Rightarrow> if c = 43 \<or> c = 45 then cs else s)"

fun underscores_ok :: "nat \<Rightarrow> pystr \<Rightarrow> bool" where
  "underscores_ok prev [] = (prev \<noteq> 95)"
| "underscores_ok prev (c # cs) =
     ((if c = 95 then is_digit prev else (prev = 95 \<longrightarrow> is_digit c)) \<and> underscores_ok c cs)"

definition exponent_ok :: "pystr \<Rightarrow> bool" where
  "exponent_ok r =
     (case r of [] \<Rightarrow> False
      | e # ds \<Rightarrow> (e = 101 \<or> e = 69) \<and> drop_sign ds \<noteq> [] \<and> list_all is_digit (drop_sign ds))"

definition number_ok :: "pystr \<Rightarrow> bool" where
  "number_ok u =
     (let int_digits = takeWhile is_digit u;
          r1 = dropWhile is_digit u;
          has_point = (r1 \<noteq> [] \<and> hd r1 = 46);
          frac_digits = (if has_point then takeWhile is_digit (tl r1) else []);
          r2 = (if has_point then dropWhile is_digit (tl r1) else r1)
      in (int_digits \<noteq> [] \<or> frac_digits \<noteq> []) \<and> (r2 = [] \<or> exponent_ok r2))"

definition inf_or_nan :: "pystr \<Rightarrow> bool" where
  "inf_or_nan u \<longleftrightarrow> map ascii_lower_char u \<in> set (map cps [''inf'', ''infinity'', ''nan''])"

definition ascii_float_accepts :: "pystr \<Rightarrow> bool" where
  "ascii_float_accepts s =
     (let t = rev (dropWhile is_ascii_space (rev (dropWhile is_ascii_space s))) in
      t \<noteq> [] \<and> underscores_ok 0 t \<and>
      (let u = drop_sign (filter (\<lambda>c. c \<noteq> 95) t) in number_ok u \<or> inf_or_nan u))"

definition ascii_runtime :: runtime where
  "ascii_runtime = \<lparr>float_accepts = ascii_float_accepts, str_lower = map ascii_lower_char\<rparr>"

section \<open>Notions the properties are stated with\<close>

text \<open>
  The length of the greedy numeric run that starts at offset \<open>i\<close> of the parts: walk
  forward from \<open>i\<close> while the parts are numeric.
\<close>

definition run_length :: "runtime \<Rightarrow> pystr list \<Rightarrow> nat \<Rightarrow> nat" where
  "run_length rt parts i = length (takeWhile (is_numeric rt) (drop i parts))"

text \<open>
  A line made of tokens: \<open>','.join(tokens)\<close>. A plain token has no comma and no control
  character in it and no blank at either end, so cleaning leaves it as it is.
\<close>

fun join_comma :: "pystr list \<Rightarrow> pystr" where
  "join_comma [] = []"
| "join_comma [t] = t"
| "join_comma (t # u # ts) = t @ comma # join_comma (u # ts)"

definition plain_token :: "pystr \<Rightarrow> bool" where
  "plain_token t \<longleftrightarrow> list_all (\<lambda>c. c \<noteq> comma \<and> \<not> is_control c) t \<and> py_strip t = t"

subsection \<open>The counts the classifier compares\<close>

definition part_count :: "pystr \<Rightarrow> nat" where
  "part_count line = length (split_on comma (clean_text line))"

definition numeric_count :: "runtime \<Rightarrow> pystr \<Rightarrow> nat" where
  "numeric_count rt line =
     length (filter (\<lambda>part. is_numeric rt (py_strip part)) (split_on comma (clean_text line)))"

subsection \<open>What is read off the loop\<close>

definition is_header_row :: "effect \<Rightarrow> bool" where
  "is_header_row e = (case e of HeaderRow row \<Rightarrow> True | _ \<Rightarrow> False)"

definition is_summary :: "effect \<Rightarrow> bool" where
  "is_summary e = (case e of Summary n \<Rightarrow> True | _ \<Rightarrow> False)"

definition is_data_row :: "effect \<Rightarrow> bool" where
  "is_data_row e = (case e of DataRow row \<Rightarrow> True | _ \<Rightarrow> False)"

text \<open>A turn that reads a line with the header marker in it.\<close>

definition marker_event :: "event \<Rightarrow> bool" where
  "marker_event ev = (case ev of Idle \<Rightarrow> False | Line raw stamp current_time \<Rightarrow> contains MARKER raw)"

subsection \<open>Example lines\<close>

definition shifted_line :: pystr where
  "shifted_line = cps ''x,y,12,7,981,3,5,8,40,41,90,30,31,32,377,1224,15,0,270,9,2,1,4''"

definition padded_line :: pystr where
  "padded_line = cps ''x,y,12,7,981,3,5,8,40,41,90,30,31,32,377,1224,15,0,270,9,2,1,4,99''"

definition shifted_record :: "pystr list" where
  "shifted_record = map cps
    [''12'', ''7'', ''981'', ''3'', ''5'', ''8'', ''40'', ''41'', ''90'', ''30'', ''31'',
     ''32'', ''377'', ''1224'', ''15'', ''0'', ''270'', ''9'', ''2'', ''1'', ''4'']"

definition line14 :: pystr where
  "line14 = cps ''12,7,981,3,5,8,40,41,90,30,31,32,377,1224''"

definition line15 :: pystr where
  "line15 = cps ''12,7,981,3,5,8,40,41,90,30,31,32,377,1224,15''"

definition line25 :: pystr where
  "line25 = cps ''12,7,981,3,5,8,40,41,90,30,31,32,377,1224,15,0,270,9,2,1,4,63,118,6,77''"

definition line26 :: pystr where
  "line26 = cps ''12,7,981,3,5,8,40,41,90,30,31,32,377,1224,15,0,270,9,2,1,4,63,118,6,77,250''"

definition line15_12 :: pystr where
  "line15_12 = cps ''x,y,z,12,7,981,3,5,8,40,41,90,30,31,32''"

definition line15_11 :: pystr where
  "line15_11 = cps ''x,y,z,w,12,7,981,3,5,8,40,41,90,30,31''"

definition noisy_line :: pystr where
  "noisy_line = cps ''Rudder 12,7,981,3,5,8,40,41,90,30,31,32,377,1224,15,0,270,9,2,1,4''"

definition boot_line :: pystr where
  "boot_line = cps ''Booting up...''"

definition header_line :: pystr where
  "header_line = cps ''AccX,AccY,AccZ,GyroX,GyroY,GyroZ''"

definition stamp0 :: pystr where
  "stamp0 = cps ''2026-03-01T10:00:00.000000''"

definition session_events :: "event list" where
  "session_events =
     [Line boot_line stamp0 1, Idle, Line header_line stamp0 2, Line shifted_line stamp0 3,
      Line header_line stamp0 4]"

definition quiet_session_events :: "event list" where
  "quiet_session_events =
     [Line shifted_line stamp0 1, Line shifted_line stamp0 2, Line shifted_line stamp0 3,
      Line shifted_line stamp0 4, Line boot_line stamp0 20, Line shifted_line stamp0 50]"

text \<open>
  Lines with control characters: a header line with \<open>\x01\<close> inside the marker, a data line
  followed by \<open>\x07\<close>, and a data line behind \<open>\x01\<close> and a blank.
\<close>

definition broken_header :: pystr where
  "broken_header = cps ''Acc'' @ [1] @ cps ''X,AccY,AccZ''"

definition garbled_line :: pystr where
  "garbled_line = line15 @ [7]"

definition framed_line :: pystr where
  "framed_line = [1, 32] @ line15"

section \<open>Properties of the extraction\<close>

lemma length_EXPECTED_HEADER: "length EXPECTED_HEADER = 21"
  by (simp add: EXPECTED_HEADER_def)

lemma try_offset_Some:
  "try_offset rt parts i = Some r \<longleftrightarrow>
     i + 21 \<le> length parts \<and> r = take 21 (drop i parts) \<and>
     (\<forall>t \<in> set (take 21 (drop i parts)). is_numeric rt t)"
proof (cases "i + 21 \<le> length parts")
  case False
  then have "\<not> 21 \<le> length (drop i parts)" by simp
  with False show ?thesis
    unfolding try_offset_def Let_def length_EXPECTED_HEADER by simp
next
  case True
  let ?c = "take 21 (drop i parts)"
  from True have len: "length ?c = 21" by simp
  show ?thesis
  proof (cases "\<forall>t \<in> set ?c. is_numeric rt t")
    case all: True
    then have tw: "numeric_run rt (drop i parts) = ?c"
      unfolding numeric_run_def length_EXPECTED_HEADER by simp
    have "try_offset rt parts i = Some ?c"
      unfolding try_offset_def Let_def length_EXPECTED_HEADER tw using True by simp
    with True all show ?thesis by auto
  next
    case some: False
    then have "numeric_run rt (drop i parts) \<noteq> ?c"
      unfolding numeric_run_def length_EXPECTED_HEADER by simp
    moreover have "length (numeric_run rt (drop i parts)) \<le> length ?c"
      unfolding numeric_run_def length_EXPECTED_HEADER by (rule length_takeWhile_le)
    ultimately have "\<not> 21 \<le> length (numeric_run rt (drop i parts))"
      unfolding numeric_run_def length_EXPECTED_HEADER using len
      by (metis le_antisym takeWhile_eq_take take_all order_refl)
    then have "try_offset rt parts i = None"
      unfolding try_offset_def Let_def length_EXPECTED_HEADER by simp
    with some show ?thesis by simp
  qed
qed


lemma scan_from_sound:
  "scan_from rt parts i = Some r \<Longrightarrow> \<exists>j\<ge>i. try_offset rt parts j = Some r"
proof (induction rt parts i rule: scan_from.induct)
  case (1 rt parts i)
  show ?case
  proof (cases "try_offset rt parts i")
    case None
    with "1.prems" have lt: "i < length parts" and rec: "scan_from rt parts (Suc i) = Some r"
      by (auto simp: scan_from.simps[of rt parts i] split: if_splits)
    from "1.IH"[OF lt None rec] obtain j where "j \<ge> Suc i" "try_offset rt parts j = Some r"
      by blast
    then show ?thesis by (intro exI[of _ j]) simp
  next
    case (Some a)
    with "1.prems" have "a = r"
      by (auto simp: scan_from.simps[of rt parts i] split: if_splits)
    with Some show ?thesis by blast
  qed
qed

lemma scan_from_first:
  "try_offset rt parts j = Some r \<Longrightarrow> i \<le> j \<Longrightarrow>
   (\<And>k. i \<le> k \<Longrightarrow> k < j \<Longrightarrow> try_offset rt parts k = None) \<Longrightarrow>
   scan_from rt parts i = Some r"
proof (induction "j - i" arbitrary: i)
  case 0
  then have "i = j" by simp
  moreover from "0.prems"(1) have "j < length parts"
    by (simp add: try_offset_Some)
  ultimately show ?case
    using "0.prems"(1) by (simp add: scan_from.simps[of rt parts j])
next
  case (Suc d)
  then have lt: "i < j" by simp
  from Suc.prems(1) have "j < length parts"
    by (simp add: try_offset_Some)
  with lt have il: "i < length parts" by simp
  have none: "try_offset rt parts i = None"
    using Suc.prems(3)[of i] lt by simp
  have "scan_from rt parts (Suc i) = Some r"
  proof (rule Suc.hyps(1))
    show "d = j - Suc i" using Suc.hyps(2) by simp
    show "try_offset rt parts j = Some r" by (rule Suc.prems(1))
    show "Suc i \<le> j" using lt by simp
    show "\<And>k. Suc i \<le> k \<Longrightarrow> k < j \<Longrightarrow> try_offset rt parts k = None"
      using Suc.prems(3) by simp
  qed
  with il none show ?case
    by (simp add: scan_from.simps[of rt parts i])
qed

lemma scan_from_None:
  "(\<And>j. i \<le> j \<Longrightarrow> try_offset rt parts j = None) \<Longrightarrow> scan_from rt parts i = None"
proof (induction rt parts i rule: scan_from.induct)
  case (1 rt parts i)
  show ?case
  proof (cases "i < length parts")
    case True
    have n: "try_offset rt parts i = None" using "1.prems"[of i] by simp
    have "scan_from rt parts (Suc i) = None"
      using "1.IH"[OF True n] "1.prems" by simp
    with True n show ?thesis by (simp add: scan_from.simps[of rt parts i])
  next
    case False
    then show ?thesis by (simp add: scan_from.simps[of rt parts i])
  qed
qed

lemma takeWhile_reaches:
  "n \<le> length (takeWhile P xs) \<longleftrightarrow> n \<le> length xs \<and> (\<forall>t \<in> set (take n xs). P t)"
proof (induction xs arbitrary: n)
  case Nil
  then show ?case by simp
next
  case (Cons x xs)
  then show ?case by (cases n) auto
qed

lemma try_offset_run_length:
  "try_offset rt parts i = Some r \<longleftrightarrow>
     21 \<le> run_length rt parts i \<and> r = take 21 (drop i parts)"
proof -
  have "21 \<le> run_length rt parts i \<longleftrightarrow>
        i + 21 \<le> length parts \<and> (\<forall>t \<in> set (take 21 (drop i parts)). is_numeric rt t)"
    unfolding run_length_def takeWhile_reaches[of 21 "is_numeric rt" "drop i parts"] by auto
  then show ?thesis
    unfolding try_offset_Some by blast
qed

lemma try_offset_None_run_length:
  "try_offset rt parts i = None \<longleftrightarrow> run_length rt parts i < 21"
proof -
  have ex: "(\<exists>r. try_offset rt parts i = Some r) \<longleftrightarrow> 21 \<le> run_length rt parts i"
    by (simp add: try_offset_run_length)
  show ?thesis
  proof (cases "try_offset rt parts i")
    case None
    with ex show ?thesis by simp
  next
    case (Some a)
    with ex show ?thesis by simp
  qed
qed



subsection \<open>Evaluating the ASCII instance\<close>

lemma float_accepts_ascii_runtime: "float_accepts ascii_runtime = ascii_float_accepts"
  by (simp add: ascii_runtime_def)

lemma str_lower_ascii_runtime: "str_lower ascii_runtime = map ascii_lower_char"
  by (simp add: ascii_runtime_def)

lemma underscores_ok_digits:
  "\<forall>c \<in> set s. is_digit c \<Longrightarrow> prev \<noteq> 95 \<Longrightarrow> underscores_ok prev s"
  by (induction s arbitrary: prev) (auto simp: is_digit_def)

lemma digits_numeric:
  assumes "s \<noteq> []" and "\<forall>c \<in> set s. is_digit c"
  shows "is_numeric ascii_runtime s"
proof -
  from assms obtain c r where s: "s = c # r" by (cases s) auto
  have hd: "is_digit (hd s)" and lst: "is_digit (last s)"
    using assms by simp_all
  have l: "dropWhile is_ascii_space s = s"
    using hd by (simp add: dropWhile_eq_self_iff is_digit_def is_ascii_space_def)
  have r: "dropWhile is_ascii_space (rev s) = rev s"
    using lst assms(1) by (simp add: dropWhile_eq_self_iff hd_rev is_digit_def is_ascii_space_def)
  have f: "filter (\<lambda>c. c \<noteq> 95) s = s"
    using assms(2) by (auto simp: filter_id_conv is_digit_def)
  have d: "drop_sign s = s"
    using hd by (auto simp: drop_sign_def s is_digit_def)
  have t: "takeWhile is_digit s = s" and e: "dropWhile is_digit s = []"
    using assms(2) by simp_all
  have n: "number_ok s"
    unfolding number_ok_def Let_def t e using assms(1) by simp
  have u: "underscores_ok 0 s"
    using assms(2) by (simp add: underscores_ok_digits)
  have "ascii_float_accepts s"
    unfolding ascii_float_accepts_def Let_def l r rev_rev_ident f d
    using assms(1) n u by blast
  then show ?thesis
    by (simp add: is_numeric_def float_accepts_ascii_runtime)
qed

lemma letter_not_numeric:
  assumes "(65 \<le> c \<and> c \<le> 90) \<or> (97 \<le> c \<and> c \<le> 122)"
    and "c \<noteq> 73" and "c \<noteq> 78" and "c \<noteq> 105" and "c \<noteq> 110"
  shows "\<not> is_numeric ascii_runtime (c # r)"
proof -
  let ?s = "c # r"
  have sp: "\<not> is_ascii_space c" using assms by (auto simp: is_ascii_space_def)
  define t where "t = rev (dropWhile is_ascii_space (rev (dropWhile is_ascii_space ?s)))"
  have "\<exists>r'. t = c # r'"
  proof -
    have "rev ?s = rev r @ [c]" by simp
    then have "dropWhile is_ascii_space (rev ?s) = dropWhile is_ascii_space (rev r) @ [c]"
      using sp by (simp add: dropWhile_append)
    then show ?thesis using sp by (simp add: t_def)
  qed
  then obtain r' where t: "t = c # r'" by blast
  define u where "u = drop_sign (filter (\<lambda>c. c \<noteq> 95) t)"
  have u: "u = c # filter (\<lambda>c. c \<noteq> 95) r'"
    using assms by (auto simp: u_def t drop_sign_def)
  have nd: "\<not> is_digit c" using assms by (auto simp: is_digit_def)
  have "\<not> number_ok u"
    unfolding number_ok_def Let_def u using nd assms by auto
  moreover have "\<not> inf_or_nan u"
    unfolding inf_or_nan_def u using assms by (auto simp: cps_def ascii_lower_char_def)
  moreover have "ascii_float_accepts ?s \<longleftrightarrow>
      t \<noteq> [] \<and> underscores_ok 0 t \<and> (number_ok u \<or> inf_or_nan u)"
    unfolding ascii_float_accepts_def Let_def u_def t_def by (rule refl)
  ultimately have "\<not> ascii_float_accepts ?s" by blast
  then show ?thesis
    by (simp add: is_numeric_def float_accepts_ascii_runtime)
qed

lemma empty_not_numeric: "\<not> is_numeric ascii_runtime []"
  by (simp add: is_numeric_def float_accepts_ascii_runtime ascii_float_accepts_def)

lemmas text_eval = cps_def clean_text_def py_strip_def py_lstrip_def py_rstrip_def
  strip_control_def is_control_def is_space_def comma_def csv_parts_def


lemma csv_parts_shifted_line:
  "csv_parts shifted_line = map cps [''x'', ''y''] @ shifted_record"
  by (simp add: shifted_line_def shifted_record_def text_eval)

lemma csv_parts_padded_line:
  "csv_parts padded_line = map cps [''x'', ''y''] @ shifted_record @ [cps ''99'']"
  by (simp add: padded_line_def shifted_record_def text_eval)

lemma numeric_shifted_record: "\<forall>t \<in> set shifted_record. is_numeric ascii_runtime t"
  by (simp add: shifted_record_def cps_def digits_numeric is_digit_def)

lemma non_numeric_xy: "\<forall>t \<in> set (map cps [''x'', ''y'']). \<not> is_numeric ascii_runtime t"
  by (simp add: cps_def letter_not_numeric)

lemma clean_csv_line_first_run:
  assumes "21 \<le> run_length rt (csv_parts line) i"
    and "\<forall>j<i. run_length rt (csv_parts line) j < 21"
  shows "clean_csv_line rt line = Some (take 21 (drop i (csv_parts line)))"
proof -
  have hit: "try_offset rt (csv_parts line) i = Some (take 21 (drop i (csv_parts line)))"
    using assms(1) by (simp add: try_offset_run_length)
  have miss: "\<And>k. 0 \<le> k \<Longrightarrow> k < i \<Longrightarrow> try_offset rt (csv_parts line) k = None"
    using assms(2) by (simp add: try_offset_None_run_length)
  show ?thesis
    unfolding clean_csv_line_def using scan_from_first[OF hit _ miss] by simp
qed

lemma run_length_non_numeric:
  assumes "k < length ks" and "\<forall>t \<in> set ks. \<not> is_numeric rt t"
  shows "run_length rt (ks @ ns) k = 0"
proof -
  from assms(1) have "drop k (ks @ ns) = ks ! k # drop (Suc k) ks @ ns"
    by (simp add: Cons_nth_drop_Suc)
  moreover have "\<not> is_numeric rt (ks ! k)"
    using assms by simp
  ultimately show ?thesis
    by (simp add: run_length_def)
qed

lemma run_length_all_numeric:
  assumes "\<forall>t \<in> set ns. is_numeric rt t"
  shows "run_length rt (ks @ ns) (length ks) = length ns"
proof -
  have tw: "takeWhile (is_numeric rt) ns = ns"
    using assms by simp
  show ?thesis
    by (simp add: run_length_def tw)
qed

lemma clean_csv_line_after_junk:
  assumes "csv_parts line = ks @ ns" and "\<forall>t \<in> set ks. \<not> is_numeric rt t"
    and "length ns = 21" and "\<forall>t \<in> set ns. is_numeric rt t"
  shows "clean_csv_line rt line = Some ns"
proof -
  have "21 \<le> run_length rt (csv_parts line) (length ks)"
    using assms(1,3,4) by (simp add: run_length_all_numeric)
  moreover have "\<forall>j<length ks. run_length rt (csv_parts line) j < 21"
    using assms(1,2) by (simp add: run_length_non_numeric)
  ultimately have "clean_csv_line rt line = Some (take 21 (drop (length ks) (csv_parts line)))"
    by (rule clean_csv_line_first_run)
  then show ?thesis
    using assms(1,3) by simp
qed

lemma run_length_padded_line:
  "run_length ascii_runtime (csv_parts padded_line) 0 = 0"
  "run_length ascii_runtime (csv_parts padded_line) (Suc 0) = 0"
  "run_length ascii_runtime (csv_parts padded_line) 2 = 22"
  by (simp_all add: run_length_def csv_parts_padded_line shifted_record_def cps_def
      digits_numeric letter_not_numeric is_digit_def)

lemma take_padded_line: "take 21 (drop 2 (csv_parts padded_line)) = shifted_record"
  by (simp add: csv_parts_padded_line shifted_record_def)

lemma clean_csv_line_padded_line:
  "clean_csv_line ascii_runtime padded_line = Some shifted_record"
  using clean_csv_line_first_run[of ascii_runtime padded_line 2]
  by (simp add: less_2_cases_iff run_length_padded_line take_padded_line)

lemma clean_csv_line_Some:
  assumes "clean_csv_line rt line = Some r"
  shows "length r = 21" and "\<forall>t \<in> set r. is_numeric rt t"
proof -
  from assms obtain j where "try_offset rt (csv_parts line) j = Some r"
    unfolding clean_csv_line_def using scan_from_sound by blast
  then show "length r = 21" and "\<forall>t \<in> set r. is_numeric rt t"
    by (auto simp: try_offset_Some)
qed

lemma clean_csv_line_short:
  assumes "length (csv_parts line) < 21"
  shows "clean_csv_line rt line = None"
proof -
  have "run_length rt (csv_parts line) j < 21" for j
  proof -
    have "run_length rt (csv_parts line) j \<le> length (drop j (csv_parts line))"
      unfolding run_length_def by (rule length_takeWhile_le)
    also have "\<dots> \<le> length (csv_parts line)" by simp
    finally show ?thesis using assms by simp
  qed
  then have "try_offset rt (csv_parts line) j = None" for j
    by (simp add: try_offset_None_run_length)
  then show ?thesis
    unfolding clean_csv_line_def by (intro scan_from_None)
qed



lemma is_csv_data_line_iff:
  "is_csv_data_line rt line \<longleftrightarrow> classify_data rt line = Candidate"
  by (simp add: is_csv_data_line_def classify_data_def Let_def)

lemma classify_data_cases:
  "classify_data rt line =
     (if has_noise_keyword rt (clean_text line) then Noise
      else if part_count line < 15 \<or> part_count line > 25 then Unrecognized
      else if of_nat (numeric_count rt line) < times_0_8 (part_count line) then Unrecognized
      else Candidate)"
  by (simp add: classify_data_def part_count_def numeric_count_def Let_def)

lemma times_0_8_values:
  "times_0_8 15 = 12"
  "times_0_8 16 = 3602879701896397 / 281474976710656"
  "times_0_8 17 = 1914029841632461 / 140737488355328"
  "times_0_8 18 = 8106479329266893 / 562949953421312"
  "times_0_8 19 = 8556839292003943 / 562949953421312"
  "times_0_8 20 = 16"
  "times_0_8 21 = 4728779608739021 / 281474976710656"
  "times_0_8 22 = 2476979795053773 / 140737488355328"
  "times_0_8 23 = 5179139571476071 / 281474976710656"
  "times_0_8 24 = 1351079888211149 / 70368744177664"
  "times_0_8 25 = 20"
  by code_simp+

lemma below_ratio:
  fixes k :: nat and a b c :: nat
  assumes "0 < b" and "c * b < a" and "a \<le> (c + 1) * b"
  shows "(of_nat k :: rat) < of_nat a / of_nat b \<longleftrightarrow> k \<le> c"
proof -
  have "(of_nat k :: rat) < of_nat a / of_nat b \<longleftrightarrow> (of_nat (k * b) :: rat) < of_nat a"
    using assms(1) by (simp add: pos_less_divide_eq)
  also have "\<dots> \<longleftrightarrow> k * b < a"
    by (simp only: of_nat_less_iff)
  also have "\<dots> \<longleftrightarrow> k \<le> c"
  proof
    assume l: "k * b < a"
    show "k \<le> c"
    proof (rule ccontr)
      assume "\<not> k \<le> c"
      then have "c + 1 \<le> k" by simp
      then have "(c + 1) * b \<le> k * b" by (rule mult_le_mono1)
      with l assms(3) show False by simp
    qed
  next
    assume "k \<le> c"
    then have "k * b \<le> c * b" by (rule mult_le_mono1)
    then show "k * b < a" using assms(2) by (rule le_less_trans)
  qed
  finally show ?thesis .
qed

lemma threshold_in_band:
  assumes "15 \<le> n" and "n \<le> 25"
  shows "(of_nat k :: rat) < times_0_8 n \<longleftrightarrow> 5 * k < 4 * n"
proof -
  from assms have "n = 15 \<or> n = 16 \<or> n = 17 \<or> n = 18 \<or> n = 19 \<or> n = 20 \<or> n = 21 \<or>
      n = 22 \<or> n = 23 \<or> n = 24 \<or> n = 25"
    by arith
  then show ?thesis
  proof (elim disjE)
    assume "n = 15" then show ?thesis by (auto simp: times_0_8_values)
  next
    assume "n = 16" then show ?thesis
      using below_ratio[of 281474976710656 12 3602879701896397 k]
      by (simp add: times_0_8_values) arith
  next
    assume "n = 17" then show ?thesis
      using below_ratio[of 140737488355328 13 1914029841632461 k]
      by (simp add: times_0_8_values) arith
  next
    assume "n = 18" then show ?thesis
      using below_ratio[of 562949953421312 14 8106479329266893 k]
      by (simp add: times_0_8_values) arith
  next
    assume "n = 19" then show ?thesis
      using below_ratio[of 562949953421312 15 8556839292003943 k]
      by (simp add: times_0_8_values) arith
  next
    assume "n = 20" then show ?thesis by (auto simp: times_0_8_values)
  next
    assume "n = 21" then show ?thesis
      using below_ratio[of 281474976710656 16 4728779608739021 k]
      by (simp add: times_0_8_values) arith
  next
    assume "n = 22" then show ?thesis
      using below_ratio[of 140737488355328 17 2476979795053773 k]
      by (simp add: times_0_8_values) arith
  next
    assume "n = 23" then show ?thesis
      using below_ratio[of 281474976710656 18 5179139571476071 k]
      by (simp add: times_0_8_values) arith
  next
    assume "n = 24" then show ?thesis
      using below_ratio[of 70368744177664 19 1351079888211149 k]
      by (simp add: times_0_8_values) arith
  next
    assume "n = 25" then show ?thesis by (auto simp: times_0_8_values)
  qed
qed

lemmas keyword_eval = has_noise_keyword_def NOISE_KEYWORDS_def str_lower_ascii_runtime
  ascii_lower_char_def starts_with_def

lemmas count_eval = part_count_def numeric_count_def text_eval digits_numeric
  letter_not_numeric is_digit_def

lemma noisy_line_facts:
  "has_noise_keyword ascii_runtime (clean_text noisy_line)"
  "part_count noisy_line = 21"
  "numeric_count ascii_runtime noisy_line = 20"
  by (simp_all add: noisy_line_def keyword_eval count_eval)

lemma line14_facts:
  "\<not> has_noise_keyword ascii_runtime (clean_text line14)"
  "part_count line14 = 14"
  "numeric_count ascii_runtime line14 = 14"
  by (simp_all add: line14_def keyword_eval count_eval)

lemma line15_facts:
  "\<not> has_noise_keyword ascii_runtime (clean_text line15)"
  "part_count line15 = 15"
  "numeric_count ascii_runtime line15 = 15"
  by (simp_all add: line15_def keyword_eval count_eval)

lemma line25_facts:
  "\<not> has_noise_keyword ascii_runtime (clean_text line25)"
  "part_count line25 = 25"
  "numeric_count ascii_runtime line25 = 25"
  by (simp_all add: line25_def keyword_eval count_eval)

lemma line26_facts:
  "\<not> has_noise_keyword ascii_runtime (clean_text line26)"
  "part_count line26 = 26"
  "numeric_count ascii_runtime line26 = 26"
  by (simp_all add: line26_def keyword_eval count_eval)

lemma line15_12_facts:
  "\<not> has_noise_keyword ascii_runtime (clean_text line15_12)"
  "part_count line15_12 = 15"
  "numeric_count ascii_runtime line15_12 = 12"
  by (simp_all add: line15_12_def keyword_eval count_eval)

lemma line15_11_facts:
  "\<not> has_noise_keyword ascii_runtime (clean_text line15_11)"
  "part_count line15_11 = 15"
  "numeric_count ascii_runtime line15_11 = 11"
  by (simp_all add: line15_11_def keyword_eval count_eval)

subsection \<open>Substrings and trimming\<close>

lemma starts_with_iff: "starts_with k s \<longleftrightarrow> (\<exists>q. s = k @ q)"
proof
  assume "starts_with k s"
  then have "s = k @ drop (length k) s"
    unfolding starts_with_def by (metis append_take_drop_id)
  then show "\<exists>q. s = k @ q" ..
next
  assume "\<exists>q. s = k @ q"
  then show "starts_with k s"
    by (auto simp: starts_with_def)
qed

lemma contains_iff: "contains k s \<longleftrightarrow> (\<exists>p q. s = p @ k @ q)"
proof (induction s)
  case Nil
  show ?case by auto
next
  case (Cons c cs)
  have "(\<exists>p q. c # cs = p @ k @ q) \<longleftrightarrow> (\<exists>q. c # cs = k @ q) \<or> (\<exists>p q. cs = p @ k @ q)"
  proof
    assume "\<exists>p q. c # cs = p @ k @ q"
    then obtain p q where pq: "c # cs = p @ k @ q" by blast
    show "(\<exists>q. c # cs = k @ q) \<or> (\<exists>p q. cs = p @ k @ q)"
    proof (cases p)
      case Nil
      with pq show ?thesis by auto
    next
      case (Cons a p')
      with pq have "cs = p' @ k @ q" by simp
      then show ?thesis by blast
    qed
  next
    assume "(\<exists>q. c # cs = k @ q) \<or> (\<exists>p q. cs = p @ k @ q)"
    then show "\<exists>p q. c # cs = p @ k @ q"
    proof
      assume "\<exists>q. c # cs = k @ q"
      then obtain q where "c # cs = [] @ k @ q" by auto
      then show ?thesis by blast
    next
      assume "\<exists>p q. cs = p @ k @ q"
      then obtain p q where "c # cs = (c # p) @ k @ q" by auto
      then show ?thesis by blast
    qed
  qed
  with Cons show ?case
    by (simp add: starts_with_iff)
qed

lemma contains_rev: "contains (rev k) (rev s) \<longleftrightarrow> contains k s"
proof -
  have "(\<exists>p q. rev s = p @ rev k @ q) \<longleftrightarrow> (\<exists>p q. s = p @ k @ q)"
  proof
    assume "\<exists>p q. rev s = p @ rev k @ q"
    then obtain p q where "rev s = p @ rev k @ q" by blast
    then have "rev (rev s) = rev (p @ rev k @ q)" by simp
    then have "s = rev q @ k @ rev p" by simp
    then show "\<exists>p q. s = p @ k @ q" by blast
  next
    assume "\<exists>p q. s = p @ k @ q"
    then obtain p q where "s = p @ k @ q" by blast
    then have "rev s = rev q @ rev k @ rev p" by simp
    then show "\<exists>p q. rev s = p @ rev k @ q" by blast
  qed
  then show ?thesis by (simp add: contains_iff)
qed

lemma contains_dropWhile:
  assumes "k \<noteq> []" and "\<not> P (hd k)"
  shows "contains k (dropWhile P s) \<longleftrightarrow> contains k s"
proof (induction s)
  case Nil
  show ?case by simp
next
  case (Cons c cs)
  show ?case
  proof (cases "P c")
    case True
    have "\<not> starts_with k (c # cs)"
    proof
      assume "starts_with k (c # cs)"
      then obtain q where "c # cs = k @ q" by (auto simp: starts_with_iff)
      with assms(1) have "hd k = c" by (cases k) auto
      with True assms(2) show False by simp
    qed
    with True Cons show ?thesis by simp
  next
    case False
    then show ?thesis by simp
  qed
qed

lemma contains_py_strip:
  assumes "k \<noteq> []" and "\<not> is_space (hd k)" and "\<not> is_space (last k)"
  shows "contains k (py_strip s) \<longleftrightarrow> contains k s"
proof -
  let ?l = "dropWhile is_space s"
  have rk: "rev k \<noteq> []" "\<not> is_space (hd (rev k))"
    using assms by (simp_all add: hd_rev)
  have "contains k (py_strip s) \<longleftrightarrow> contains (rev k) (dropWhile is_space (rev ?l))"
    unfolding py_strip_def py_rstrip_def py_lstrip_def
    using contains_rev[of "rev k" "dropWhile is_space (rev ?l)"] by simp
  also have "\<dots> \<longleftrightarrow> contains (rev k) (rev ?l)"
    using rk by (rule contains_dropWhile)
  also have "\<dots> \<longleftrightarrow> contains k ?l"
    by (rule contains_rev)
  also have "\<dots> \<longleftrightarrow> contains k s"
    using assms(1,2) by (rule contains_dropWhile)
  finally show ?thesis .
qed

lemma MARKER_ends: "MARKER \<noteq> []" "\<not> is_space (hd MARKER)" "\<not> is_space (last MARKER)"
  by (simp_all add: MARKER_def cps_def is_space_def)

lemma contains_MARKER_py_strip: "contains MARKER (py_strip raw) \<longleftrightarrow> contains MARKER raw"
  using MARKER_ends by (rule contains_py_strip)

subsection \<open>One turn of the loop\<close>

lemma not_contains_MARKER_Nil: "\<not> contains MARKER []"
  by (simp add: MARKER_ends)

lemma is_csv_data_line_Nil: "\<not> is_csv_data_line rt []"
  by (simp add: is_csv_data_line_def text_eval Let_def)

lemma classify_Candidate:
  "classify rt line = Candidate \<longleftrightarrow> \<not> contains MARKER line \<and> is_csv_data_line rt line"
  by (simp add: classify_def is_csv_data_line_iff)

lemma length_csv_parts: "length (csv_parts line) = part_count line"
  by (simp add: csv_parts_def part_count_def)

lemma clean_csv_line_not_Nil: "clean_csv_line rt line \<noteq> Some []"
  using clean_csv_line_Some(1)[of rt line "[]"] by auto

lemma main_step_candidate:
  assumes "classify rt (py_strip raw) = Candidate"
  shows "main_step rt st (Line raw stamp now) =
     (case clean_csv_line rt (py_strip raw) of
        None \<Rightarrow> (st, [ParseError (py_strip raw)])
      | Some cleaned_data \<Rightarrow>
          if 15 \<le> float_sub now (last_summary_time st) then
            (st\<lparr>csv_message_count := 0, last_summary_time := now\<rparr>,
             [DataRow (stamp # cleaned_data), Summary (csv_message_count st + 1)])
          else
            (st\<lparr>csv_message_count := csv_message_count st + 1\<rparr>,
             [DataRow (stamp # cleaned_data)]))"
proof -
  from assms have m: "\<not> contains MARKER (py_strip raw)" and c: "is_csv_data_line rt (py_strip raw)"
    by (simp_all add: classify_Candidate)
  from c have ne: "py_strip raw \<noteq> []"
    using is_csv_data_line_Nil by metis
  show ?thesis
  proof (cases "clean_csv_line rt (py_strip raw)")
    case None
    with m c ne show ?thesis by (simp add: main_step_def)
  next
    case (Some d)
    then have "d \<noteq> []" using clean_csv_line_not_Nil[of rt "py_strip raw"] by auto
    with Some m c ne show ?thesis by (simp add: main_step_def Let_def)
  qed
qed

lemma main_step_other:
  assumes "classify rt (py_strip raw) \<noteq> Candidate"
  shows "csv_message_count (fst (main_step rt st (Line raw stamp now))) = csv_message_count st"
    and "last_summary_time (fst (main_step rt st (Line raw stamp now))) = last_summary_time st"
    and "filter is_summary (snd (main_step rt st (Line raw stamp now))) = []"
    and "filter is_data_row (snd (main_step rt st (Line raw stamp now))) = []"
  using assms
  by (auto simp: main_step_def Let_def classify_Candidate is_summary_def is_data_row_def)

lemma main_step_Idle: "main_step rt st Idle = (st, [])"
  by (simp add: main_step_def)

lemmas marker_eval = MARKER_def cps_def starts_with_def

lemma line15_candidate:
  "py_strip line15 = line15"
  "classify ascii_runtime line15 = Candidate"
  "clean_csv_line ascii_runtime line15 = None"
proof -
  show "py_strip line15 = line15"
    by (simp add: line15_def text_eval)
  have "\<not> contains MARKER line15"
    by (simp add: line15_def marker_eval)
  then show "classify ascii_runtime line15 = Candidate"
    by (simp add: classify_def classify_data_cases line15_facts times_0_8_values)
  show "clean_csv_line ascii_runtime line15 = None"
    by (rule clean_csv_line_short) (simp add: length_csv_parts line15_facts)
qed

lemma line15_12_candidate:
  "py_strip line15_12 = line15_12"
  "classify ascii_runtime line15_12 = Candidate"
proof -
  show "py_strip line15_12 = line15_12"
    by (simp add: line15_12_def text_eval)
  have "\<not> contains MARKER line15_12"
    by (simp add: line15_12_def marker_eval)
  then show "classify ascii_runtime line15_12 = Candidate"
    by (simp add: classify_def classify_data_cases line15_12_facts times_0_8_values)
qed

subsection \<open>The header row over a whole session\<close>

lemma main_step_header_written:
  assumes "header_written st"
  shows "header_written (fst (main_step rt st ev))"
    and "filter is_header_row (snd (main_step rt st ev)) = []"
  using assms
  by (cases ev; simp add: main_step_def Let_def is_header_row_def split: option.splits)+

lemma main_step_first_marker:
  assumes "\<not> header_written st" and "marker_event ev"
  shows "header_written (fst (main_step rt st ev))"
    and "filter is_header_row (snd (main_step rt st ev)) = [HeaderRow (TIMESTAMP # EXPECTED_HEADER)]"
proof -
  from assms(2) obtain raw stamp now where ev: "ev = Line raw stamp now"
    and m: "contains MARKER (py_strip raw)"
    by (cases ev) (auto simp: marker_event_def contains_MARKER_py_strip)
  from m have ne: "py_strip raw \<noteq> []"
    using not_contains_MARKER_Nil by metis
  show "header_written (fst (main_step rt st ev))"
    using assms(1) m ne by (simp add: ev main_step_def)
  show "filter is_header_row (snd (main_step rt st ev)) = [HeaderRow (TIMESTAMP # EXPECTED_HEADER)]"
    using assms(1) m ne by (simp add: ev main_step_def is_header_row_def)
qed

lemma main_step_no_marker:
  assumes "\<not> header_written st" and "\<not> marker_event ev"
  shows "\<not> header_written (fst (main_step rt st ev))"
    and "filter is_header_row (snd (main_step rt st ev)) = []"
  using assms
  by (cases ev; simp add: main_step_def Let_def is_header_row_def marker_event_def
        contains_MARKER_py_strip split: option.splits)+

lemma main_loop_Cons:
  "snd (main_loop rt st (ev # evs)) =
     snd (main_step rt st ev) @ snd (main_loop rt (fst (main_step rt st ev)) evs)"
  "fst (main_loop rt st (ev # evs)) = fst (main_loop rt (fst (main_step rt st ev)) evs)"
  by (simp_all split: prod.splits)

lemma main_loop_after_header:
  "header_written st \<Longrightarrow> filter is_header_row (snd (main_loop rt st evs)) = []"
proof (induction evs arbitrary: st)
  case Nil
  show ?case by simp
next
  case (Cons ev evs)
  from Cons.prems have "header_written (fst (main_step rt st ev))"
    and "filter is_header_row (snd (main_step rt st ev)) = []"
    by (rule main_step_header_written)+
  with Cons.IH show ?case
    by (simp add: main_loop_Cons del: main_loop.simps)
qed

lemma main_loop_header_once:
  "\<not> header_written st \<Longrightarrow> \<exists>ev \<in> set evs. marker_event ev \<Longrightarrow>
     filter is_header_row (snd (main_loop rt st evs)) = [HeaderRow (TIMESTAMP # EXPECTED_HEADER)]"
proof (induction evs arbitrary: st)
  case Nil
  then show ?case by simp
next
  case (Cons ev evs)
  show ?case
  proof (cases "marker_event ev")
    case True
    with Cons.prems(1) have w: "header_written (fst (main_step rt st ev))"
      and h: "filter is_header_row (snd (main_step rt st ev)) = [HeaderRow (TIMESTAMP # EXPECTED_HEADER)]"
      by (rule main_step_first_marker)+
    from w have "filter is_header_row (snd (main_loop rt (fst (main_step rt st ev)) evs)) = []"
      by (rule main_loop_after_header)
    with h show ?thesis
      by (simp add: main_loop_Cons del: main_loop.simps)
  next
    case False
    with Cons.prems(1) have w: "\<not> header_written (fst (main_step rt st ev))"
      and h: "filter is_header_row (snd (main_step rt st ev)) = []"
      by (rule main_step_no_marker)+
    from False Cons.prems(2) have "\<exists>ev \<in> set evs. marker_event ev" by simp
    with w have "filter is_header_row (snd (main_loop rt (fst (main_step rt st ev)) evs)) =
        [HeaderRow (TIMESTAMP # EXPECTED_HEADER)]"
      by (rule Cons.IH)
    with h show ?thesis
      by (simp add: main_loop_Cons del: main_loop.simps)
  qed
qed

lemma main_step_repeated_marker:
  assumes "header_written st" and "contains MARKER raw"
  shows "main_step rt st (Line raw stamp now) = (st, [])"
proof -
  from assms(2) have m: "contains MARKER (py_strip raw)"
    by (simp add: contains_MARKER_py_strip)
  with assms(1) show ?thesis
    by (simp add: main_step_def Let_def)
qed

lemma session_events_marker: "list_ex marker_event session_events"
  by (simp add: session_events_def marker_event_def header_line_def boot_line_def marker_eval)

lemma header_line_marker: "contains MARKER header_line"
  by (simp add: header_line_def marker_eval)

subsection \<open>Evaluating turns of the loop\<close>

lemma boot_line_turn:
  "py_strip boot_line = boot_line"
  "classify ascii_runtime boot_line = Noise"
proof -
  show "py_strip boot_line = boot_line"
    by (simp add: boot_line_def text_eval)
  have "\<not> contains MARKER boot_line"
    by (simp add: boot_line_def marker_eval)
  moreover have "has_noise_keyword ascii_runtime (clean_text boot_line)"
    by (simp add: boot_line_def keyword_eval text_eval)
  ultimately show "classify ascii_runtime boot_line = Noise"
    by (simp add: classify_def classify_data_cases)
qed

lemma shifted_line_facts:
  "\<not> has_noise_keyword ascii_runtime (clean_text shifted_line)"
  "part_count shifted_line = 23"
  "numeric_count ascii_runtime shifted_line = 21"
  by (simp_all add: shifted_line_def keyword_eval count_eval)

lemma shifted_line_turn:
  "py_strip shifted_line = shifted_line"
  "classify ascii_runtime shifted_line = Candidate"
  "clean_csv_line ascii_runtime shifted_line = Some shifted_record"
proof -
  show "py_strip shifted_line = shifted_line"
    by (simp add: shifted_line_def text_eval)
  have "\<not> contains MARKER shifted_line"
    by (simp add: shifted_line_def marker_eval)
  then show "classify ascii_runtime shifted_line = Candidate"
    by (simp add: classify_def classify_data_cases shifted_line_facts times_0_8_values)
  show "clean_csv_line ascii_runtime shifted_line = Some shifted_record"
    using csv_parts_shifted_line non_numeric_xy _ numeric_shifted_record
    by (rule clean_csv_line_after_junk) (simp add: shifted_record_def)
qed

lemma main_step_noise:
  assumes "classify rt (py_strip raw) = Noise" and "py_strip raw \<noteq> []"
  shows "main_step rt st (Line raw stamp now) = (st, [Stm32 (py_strip raw)])"
proof -
  from assms(1) have "\<not> contains MARKER (py_strip raw)" and "\<not> is_csv_data_line rt (py_strip raw)"
    by (auto simp: classify_def is_csv_data_line_iff split: if_splits)
  with assms(2) show ?thesis
    by (simp add: main_step_def Let_def)
qed

lemma float_sub_values:
  "float_sub 1 0 = 1"
  "float_sub 2 0 = 2"
  "float_sub 3 0 = 3"
  "float_sub 4 0 = 4"
  "float_sub 20 0 = 20"
  "float_sub 50 0 = 50"
  by code_simp+

text \<open>
  Where rounding decides: \<open>15 - 2^-60\<close> is below 15 as a number and is 15 as a double,
  and so is the difference of the doubles nearest to 15.1 and 0.1.
\<close>

lemma float_sub_rounds_up:
  "float_sub 15 (1 / 2 ^ 60) = 15"
  "(15 :: rat) - 1 / 2 ^ 60 < 15"
  "float_sub (8500544296661811 / 562949953421312) (3602879701896397 / 36028797018963968) = 15"
  "(8500544296661811 / 562949953421312 :: rat) - 3602879701896397 / 36028797018963968 < 15"
  by code_simp+

lemma boot_line_step:
  "main_step ascii_runtime st (Line boot_line stamp now) = (st, [Stm32 boot_line])"
  using main_step_noise[of ascii_runtime boot_line st stamp now]
  by (simp add: boot_line_turn) (simp add: boot_line_def cps_def)

lemma shifted_line_step:
  "main_step ascii_runtime st (Line shifted_line stamp now) =
     (if 15 \<le> float_sub now (last_summary_time st) then
        (st\<lparr>csv_message_count := 0, last_summary_time := now\<rparr>,
         [DataRow (stamp # shifted_record), Summary (csv_message_count st + 1)])
      else
        (st\<lparr>csv_message_count := csv_message_count st + 1\<rparr>,
         [DataRow (stamp # shifted_record)]))"
  using main_step_candidate[of ascii_runtime shifted_line st stamp now]
  by (simp add: shifted_line_turn)

subsection \<open>Trimming twice, splitting a trimmed text\<close>

lemma py_lstrip_idem: "py_lstrip (py_lstrip p) = py_lstrip p"
  by (simp add: py_lstrip_def)

lemma py_rstrip_idem: "py_rstrip (py_rstrip p) = py_rstrip p"
  by (simp add: py_rstrip_def)

lemma py_strip_Nil: "py_lstrip [] = []" "py_rstrip [] = []" "py_strip [] = []"
  by (simp_all add: py_lstrip_def py_rstrip_def py_strip_def)

lemma py_rstrip_Cons:
  assumes "\<not> is_space x"
  shows "py_rstrip (x # m) = x # py_rstrip m"
proof -
  have "dropWhile is_space (rev m @ [x]) = dropWhile is_space (rev m) @ [x]"
    using assms by (simp add: dropWhile_append)
  then show ?thesis
    by (simp add: py_rstrip_def)
qed

lemma py_rstrip_all_space:
  assumes "\<forall>c \<in> set a. is_space c"
  shows "py_rstrip (a @ m) = (if py_rstrip m = [] then [] else a @ py_rstrip m)"
proof (cases "\<forall>c \<in> set m. is_space c")
  case True
  with assms have "dropWhile is_space (rev m) = []" "dropWhile is_space (rev m @ rev a) = []"
    by auto
  then show ?thesis by (simp add: py_rstrip_def)
next
  case False
  then obtain x where "x \<in> set (rev m)" "\<not> is_space x" by auto
  then have "dropWhile is_space (rev m @ rev a) = dropWhile is_space (rev m) @ rev a"
    by (rule dropWhile_append1)
  then have "py_rstrip (a @ m) = a @ py_rstrip m"
    by (simp add: py_rstrip_def)
  moreover have "py_rstrip m \<noteq> []"
    using False by (auto simp: py_rstrip_def)
  ultimately show ?thesis by simp
qed

lemma py_lstrip_py_rstrip: "py_lstrip (py_rstrip p) = py_rstrip (py_lstrip p)"
proof -
  define a where "a = takeWhile is_space p"
  define m where "m = dropWhile is_space p"
  have p: "p = a @ m" and a: "\<forall>c \<in> set a. is_space c"
    by (auto simp: a_def m_def dest: set_takeWhileD)
  have lm: "py_lstrip p = m"
    by (simp add: py_lstrip_def m_def)
  show ?thesis
  proof (cases m)
    case Nil
    with p a have "py_rstrip p = []"
      by (simp add: py_rstrip_def)
    then show ?thesis
      by (simp add: lm Nil py_strip_Nil)
  next
    case (Cons x m')
    have nx: "\<not> is_space x"
      using Cons hd_dropWhile[of is_space p] by (simp add: m_def)
    have rm: "py_rstrip m = x # py_rstrip m'"
      using nx by (simp add: Cons py_rstrip_Cons)
    have "py_rstrip p = a @ py_rstrip m"
      using a rm by (simp add: p py_rstrip_all_space)
    then have "py_lstrip (py_rstrip p) = py_rstrip m"
      using a nx by (simp add: py_lstrip_def rm dropWhile_append2)
    with lm show ?thesis by simp
  qed
qed

lemma py_strip_py_lstrip: "py_strip (py_lstrip p) = py_strip p"
  by (simp add: py_strip_def py_lstrip_idem)

lemma py_strip_py_rstrip: "py_strip (py_rstrip p) = py_strip p"
  by (simp add: py_strip_def py_lstrip_py_rstrip py_rstrip_idem)

lemma py_strip_idem: "py_strip (py_strip p) = py_strip p"
  by (metis py_strip_def py_strip_py_lstrip py_strip_py_rstrip)

lemma split_on_not_Nil: "split_on sep s \<noteq> []"
  by (induction s) (auto split: list.splits)

lemma split_on_Cons:
  "split_on sep (c # cs) =
     (if c = sep then [] # split_on sep cs
      else (c # hd (split_on sep cs)) # tl (split_on sep cs))"
  using split_on_not_Nil[of sep cs] by (cases "split_on sep cs") auto

lemma split_on_dropWhile:
  assumes "\<not> P sep"
  shows "split_on sep (dropWhile P s) = dropWhile P (hd (split_on sep s)) # tl (split_on sep s)"
proof (induction s)
  case Nil
  show ?case by simp
next
  case (Cons c cs)
  show ?case
  proof (cases "P c")
    case True
    with assms have "c \<noteq> sep" by auto
    with True Cons show ?thesis
      by (simp add: split_on_Cons del: split_on.simps)
  next
    case False
    then show ?thesis
      by (simp add: split_on_Cons del: split_on.simps)
  qed
qed

lemma split_on_snoc:
  "split_on sep (s @ [c]) =
     (if c = sep then split_on sep s @ [[]]
      else butlast (split_on sep s) @ [last (split_on sep s) @ [c]])"
proof (induction s)
  case Nil
  show ?case by simp
next
  case (Cons d ds)
  obtain p ps where sp: "split_on sep ds = p # ps"
    using split_on_not_Nil[of sep ds] by (cases "split_on sep ds") auto
  show ?case
  proof (cases "c = sep")
    case True
    with Cons sp show ?thesis
      by (simp add: split_on_Cons del: split_on.simps)
  next
    case False
    obtain q qs where sq: "split_on sep (ds @ [c]) = q # qs"
      using split_on_not_Nil[of sep "ds @ [c]"] by (cases "split_on sep (ds @ [c])") auto
    from Cons False sp sq have eq: "q # qs = butlast (p # ps) @ [last (p # ps) @ [c]]"
      by simp
    show ?thesis
    proof (cases ps)
      case Nil
      with eq have "q = p @ [c]" "qs = []" by simp_all
      with False sp sq Nil show ?thesis
        by (simp add: split_on_Cons del: split_on.simps)
    next
      case (Cons r rs)
      with eq have "q = p" "qs = butlast ps @ [last ps @ [c]]" by simp_all
      with False sp sq Cons show ?thesis
        by (simp add: split_on_Cons del: split_on.simps)
    qed
  qed
qed

lemma split_on_rev: "split_on sep (rev s) = rev (map rev (split_on sep s))"
proof (induction s)
  case Nil
  show ?case by simp
next
  case (Cons c cs)
  obtain p ps where sp: "split_on sep cs = p # ps"
    using split_on_not_Nil[of sep cs] by (cases "split_on sep cs") auto
  with Cons show ?case
    by (simp add: split_on_snoc split_on_Cons del: split_on.simps)
qed

lemma split_on_py_lstrip:
  assumes "\<not> is_space sep"
  shows "length (split_on sep (py_lstrip s)) = length (split_on sep s)"
    and "map py_strip (split_on sep (py_lstrip s)) = map py_strip (split_on sep s)"
proof -
  obtain p ps where sp: "split_on sep s = p # ps"
    using split_on_not_Nil[of sep s] by (cases "split_on sep s") auto
  have l: "split_on sep (py_lstrip s) = py_lstrip p # ps"
    unfolding py_lstrip_def using split_on_dropWhile[of is_space sep s, OF assms] sp by simp
  show "length (split_on sep (py_lstrip s)) = length (split_on sep s)"
    by (simp add: l sp)
  show "map py_strip (split_on sep (py_lstrip s)) = map py_strip (split_on sep s)"
    by (simp add: l sp py_strip_py_lstrip)
qed

lemma split_on_py_rstrip:
  assumes "\<not> is_space sep"
  shows "length (split_on sep (py_rstrip s)) = length (split_on sep s)"
    and "map py_strip (split_on sep (py_rstrip s)) = map py_strip (split_on sep s)"
proof -
  obtain p ps where sp: "split_on sep (rev s) = p # ps"
    using split_on_not_Nil[of sep "rev s"] by (cases "split_on sep (rev s)") auto
  have "split_on sep (dropWhile is_space (rev s)) = dropWhile is_space p # ps"
    using split_on_dropWhile[of is_space sep "rev s", OF assms] sp by simp
  then have r: "split_on sep (py_rstrip s) = rev (map rev ps) @ [py_rstrip (rev p)]"
    by (simp add: py_rstrip_def split_on_rev[of sep "dropWhile is_space (rev s)"])
  have "split_on sep (rev (rev s)) = rev (map rev (p # ps))"
    unfolding split_on_rev[of sep "rev s"] sp ..
  then have s: "split_on sep s = rev (map rev ps) @ [rev p]"
    by simp
  show "length (split_on sep (py_rstrip s)) = length (split_on sep s)"
    by (simp add: r s)
  show "map py_strip (split_on sep (py_rstrip s)) = map py_strip (split_on sep s)"
    by (simp add: r s py_strip_py_rstrip)
qed

lemma split_on_py_strip:
  assumes "\<not> is_space sep"
  shows "length (split_on sep (py_strip s)) = length (split_on sep s)"
    and "map py_strip (split_on sep (py_strip s)) = map py_strip (split_on sep s)"
  using split_on_py_rstrip[OF assms, of "py_lstrip s"] split_on_py_lstrip[OF assms, of s]
  by (simp_all add: py_strip_def[of s])

subsection \<open>Classifying a cleaned line again\<close>

lemma set_py_strip: "set (py_strip s) \<subseteq> set s"
proof -
  have "set (py_rstrip t) \<subseteq> set t" for t
    using set_dropWhileD[of _ is_space "rev t"] by (auto simp: py_rstrip_def)
  moreover have "set (py_lstrip s) \<subseteq> set s"
    using set_dropWhileD[of _ is_space s] by (auto simp: py_lstrip_def)
  ultimately show ?thesis
    unfolding py_strip_def by blast
qed

lemma clean_text_clean_text: "clean_text (clean_text line) = py_strip (clean_text line)"
proof -
  have "\<forall>c \<in> set (clean_text line). \<not> is_control c"
    by (simp add: clean_text_def strip_control_def)
  with set_py_strip[of "clean_text line"]
  have "\<forall>c \<in> set (py_strip (clean_text line)). \<not> is_control c"
    by blast
  then have "strip_control (py_strip (clean_text line)) = py_strip (clean_text line)"
    unfolding strip_control_def by (simp add: filter_id_conv)
  then show ?thesis
    by (simp add: clean_text_def)
qed

lemma NOISE_KEYWORDS_ends:
  "\<forall>k \<in> set NOISE_KEYWORDS. k \<noteq> [] \<and> \<not> is_space (hd k) \<and> \<not> is_space (last k)"
  by (simp add: NOISE_KEYWORDS_def cps_def is_space_def)

lemma has_noise_keyword_py_strip:
  assumes "\<forall>s. str_lower rt (py_strip s) = py_strip (str_lower rt s)"
  shows "has_noise_keyword rt (py_strip x) = has_noise_keyword rt x"
proof -
  have "contains k (str_lower rt (py_strip x)) = contains k (str_lower rt x)"
    if "k \<in> set NOISE_KEYWORDS" for k
  proof -
    from that NOISE_KEYWORDS_ends
    have "k \<noteq> []" "\<not> is_space (hd k)" "\<not> is_space (last k)" by auto
    then have "contains k (py_strip (str_lower rt x)) = contains k (str_lower rt x)"
      by (rule contains_py_strip)
    with assms show ?thesis by simp
  qed
  then show ?thesis
    unfolding has_noise_keyword_def list_ex_iff by blast
qed

lemma comma_not_space: "\<not> is_space comma"
  by (simp add: comma_def is_space_def)

lemma numeric_count_csv_parts:
  "numeric_count rt line = length (filter (is_numeric rt) (csv_parts line))"
  by (simp add: numeric_count_def csv_parts_def filter_map comp_def)

lemma classify_data_clean_text:
  assumes "\<forall>s. str_lower rt (py_strip s) = py_strip (str_lower rt s)"
  shows "classify_data rt (clean_text line) = classify_data rt line"
proof -
  let ?x = "clean_text line"
  have k: "has_noise_keyword rt (clean_text ?x) = has_noise_keyword rt ?x"
    using assms by (simp add: clean_text_clean_text has_noise_keyword_py_strip)
  have p: "part_count ?x = part_count line"
    using split_on_py_strip(1)[OF comma_not_space, of ?x]
    by (simp add: part_count_def clean_text_clean_text)
  have "csv_parts ?x = csv_parts line"
    using split_on_py_strip(2)[OF comma_not_space, of ?x]
    by (simp add: csv_parts_def clean_text_clean_text)
  then have n: "numeric_count rt ?x = numeric_count rt line"
    by (simp add: numeric_count_csv_parts)
  show ?thesis
    unfolding classify_data_cases k p n ..
qed

lemma classify_data_same_clean_text:
  assumes "clean_text l1 = clean_text l2"
  shows "classify_data rt l1 = classify_data rt l2"
  using assms by (simp add: classify_data_def)

lemma classify_data_not_Header: "classify_data rt line \<noteq> Header"
  by (simp add: classify_data_cases)

lemma is_space_ascii_lower_char: "is_space (ascii_lower_char c) = is_space c"
  by (auto simp: is_space_def ascii_lower_char_def)

lemma ascii_lower_py_strip:
  "map ascii_lower_char (py_strip s) = py_strip (map ascii_lower_char s)"
  by (simp add: py_strip_def py_rstrip_def py_lstrip_def dropWhile_map rev_map comp_def
      is_space_ascii_lower_char)

lemma garbled_line_clean: "clean_text garbled_line = clean_text line15"
  by (simp add: garbled_line_def line15_def text_eval)

lemma framed_line_clean:
  "clean_text framed_line = 32 # line15"
  "clean_text (32 # line15) = line15"
  by (simp_all add: framed_line_def line15_def text_eval)

lemma broken_header_clean: "clean_text broken_header = cps ''AccX,AccY,AccZ''"
  by (simp add: broken_header_def text_eval)

lemma broken_header_facts:
  "clean_text broken_header = MARKER"
  "\<not> contains MARKER broken_header"
  "contains MARKER MARKER"
  "\<not> has_noise_keyword ascii_runtime (clean_text broken_header)"
  "part_count broken_header = 3"
proof -
  show "clean_text broken_header = MARKER"
    by (simp add: broken_header_clean MARKER_def)
  show "\<not> contains MARKER broken_header"
    by (simp add: broken_header_def marker_eval)
  show "contains MARKER MARKER"
    by (simp add: marker_eval)
  show "\<not> has_noise_keyword ascii_runtime (clean_text broken_header)"
    unfolding broken_header_clean by (simp add: keyword_eval cps_def)
  show "part_count broken_header = 3"
    unfolding part_count_def broken_header_clean by (simp add: cps_def comma_def)
qed

subsection \<open>Lines joined from plain tokens\<close>

lemma split_on_no_sep: "sep \<notin> set t \<Longrightarrow> split_on sep t = [t]"
  by (induction t) auto

lemma split_on_append_sep:
  "sep \<notin> set t \<Longrightarrow> split_on sep (t @ sep # r) = t # split_on sep r"
  by (induction t) auto

lemma split_on_join_comma:
  "ts \<noteq> [] \<Longrightarrow> \<forall>t \<in> set ts. comma \<notin> set t \<Longrightarrow> split_on comma (join_comma ts) = ts"
proof (induction ts rule: join_comma.induct)
  case 1
  then show ?case by simp
next
  case (2 t)
  then show ?case by (simp add: split_on_no_sep)
next
  case (3 t u ts)
  then show ?case by (simp add: split_on_append_sep del: split_on.simps)
qed

lemma py_strip_fixed:
  assumes "s = [] \<or> (\<not> is_space (hd s) \<and> \<not> is_space (last s))"
  shows "py_strip s = s"
proof (cases "s = []")
  case True
  then show ?thesis by (simp add: py_strip_Nil)
next
  case False
  with assms have h: "\<not> is_space (hd s)" and l: "\<not> is_space (last s)" by simp_all
  have "py_lstrip s = s"
    using h by (simp add: py_lstrip_def dropWhile_eq_self_iff)
  moreover have "py_rstrip s = s"
  proof -
    have "dropWhile is_space (rev s) = rev s"
      using l False by (simp add: dropWhile_eq_self_iff hd_rev)
    then show ?thesis by (simp add: py_rstrip_def)
  qed
  ultimately show ?thesis by (simp add: py_strip_def)
qed

lemma py_strip_fixed_ends:
  assumes "py_strip s = s" and "s \<noteq> []"
  shows "\<not> is_space (hd s)" and "\<not> is_space (last s)"
proof -
  have le_r: "length (py_rstrip t) \<le> length t" for t
    by (simp add: py_rstrip_def length_dropWhile_le[of is_space "rev t", simplified])
  have le_l: "length (py_lstrip t) \<le> length t" for t
    by (simp add: py_lstrip_def length_dropWhile_le)
  show "\<not> is_space (hd s)"
  proof
    assume "is_space (hd s)"
    with assms(2) obtain x r where s: "s = x # r" and "is_space x" by (cases s) auto
    then have "length (py_lstrip s) \<le> length r"
      by (simp add: py_lstrip_def length_dropWhile_le)
    with le_r[of "py_lstrip s"] have "length (py_strip s) \<le> length r"
      by (simp add: py_strip_def)
    with assms(1) s show False by simp
  qed
  show "\<not> is_space (last s)"
  proof
    assume sp: "is_space (last s)"
    from assms(2) obtain r x where s: "s = r @ [x]" by (cases s rule: rev_cases) auto
    with sp have "is_space x" by simp
    then have "length (py_rstrip s) \<le> length r"
      by (simp add: py_rstrip_def s length_dropWhile_le[of is_space "rev r", simplified])
    with le_l[of "py_rstrip s"] have "length (py_lstrip (py_rstrip s)) \<le> length r"
      by simp
    then have "length (py_strip s) \<le> length r"
      by (simp add: py_strip_def py_lstrip_py_rstrip)
    with assms(1) s show False by simp
  qed
qed

lemma join_comma_ends:
  "\<forall>t \<in> set ts. py_strip t = t \<Longrightarrow>
     join_comma ts = [] \<or> (\<not> is_space (hd (join_comma ts)) \<and> \<not> is_space (last (join_comma ts)))"
proof (induction ts rule: join_comma.induct)
  case 1
  show ?case by simp
next
  case (2 t)
  then show ?case using py_strip_fixed_ends[of t] by auto
next
  case (3 t u ts)
  let ?r = "join_comma (u # ts)"
  from "3.prems" have t: "py_strip t = t" and rest: "\<forall>t \<in> set (u # ts). py_strip t = t"
    by simp_all
  from "3.IH"[OF rest] have r: "?r = [] \<or> (\<not> is_space (hd ?r) \<and> \<not> is_space (last ?r))" .
  have h: "\<not> is_space (hd (t @ comma # ?r))"
    using py_strip_fixed_ends(1)[OF t] comma_not_space by (cases t) auto
  have l: "\<not> is_space (last (t @ comma # ?r))"
    using r comma_not_space by auto
  from h l show ?case by simp
qed

lemma set_join_comma: "set (join_comma ts) \<subseteq> insert comma (\<Union> (set ` set ts))"
  by (induction ts rule: join_comma.induct) auto

lemma csv_parts_join_comma:
  assumes "ts \<noteq> []" and "\<forall>t \<in> set ts. plain_token t"
  shows "csv_parts (join_comma ts) = ts"
proof -
  from assms(2) have fixed: "\<forall>t \<in> set ts. py_strip t = t"
    and nocomma: "\<forall>t \<in> set ts. comma \<notin> set t"
    and noctl: "\<forall>t \<in> set ts. \<forall>c \<in> set t. \<not> is_control c"
    by (auto simp: plain_token_def list_all_iff)
  have "py_strip (join_comma ts) = join_comma ts"
    using join_comma_ends[OF fixed] by (rule py_strip_fixed)
  moreover have "\<forall>c \<in> set (join_comma ts). \<not> is_control c"
    using set_join_comma[of ts] noctl by (auto simp: comma_def is_control_def)
  then have "strip_control (join_comma ts) = join_comma ts"
    unfolding strip_control_def by (simp add: filter_id_conv)
  ultimately have "clean_text (join_comma ts) = join_comma ts"
    by (simp add: clean_text_def)
  then have "csv_parts (join_comma ts) = map py_strip ts"
    using split_on_join_comma[OF assms(1) nocomma] by (simp add: csv_parts_def)
  also have "\<dots> = ts"
    using fixed by (simp add: map_idI)
  finally show ?thesis .
qed

lemma clean_csv_line_joined:
  assumes "\<forall>t \<in> set (ks @ ns). plain_token t" and "\<forall>t \<in> set ks. \<not> is_numeric rt t"
    and "length ns = 21" and "\<forall>t \<in> set ns. is_numeric rt t"
  shows "clean_csv_line rt (join_comma (ks @ ns)) = Some ns"
proof -
  from assms(3) have "ks @ ns \<noteq> []" by auto
  then have "csv_parts (join_comma (ks @ ns)) = ks @ ns"
    using assms(1) by (rule csv_parts_join_comma)
  then show ?thesis
    using assms(2,3,4) by (rule clean_csv_line_after_junk)
qed

lemma shifted_line_joined:
  "shifted_line = join_comma (map cps [''x'', ''y''] @ shifted_record)"
  by (simp add: shifted_line_def shifted_record_def cps_def comma_def)

lemma shifted_line_plain: "list_all plain_token (map cps [''x'', ''y''] @ shifted_record)"
  by (simp add: shifted_record_def plain_token_def text_eval)

subsection \<open>Lines without the header marker\<close>

lemma classify_no_marker: "\<not> contains MARKER line \<Longrightarrow> classify rt line = classify_data rt line"
  by (simp add: classify_def)

lemma example_lines_no_marker:
  "\<not> contains MARKER noisy_line"
  "\<not> contains MARKER line14"
  "\<not> contains MARKER line15"
  "\<not> contains MARKER line25"
  "\<not> contains MARKER line26"
  "\<not> contains MARKER line15_12"
  "\<not> contains MARKER line15_11"
  by (simp_all add: noisy_line_def line14_def line15_def line25_def line26_def line15_12_def
      line15_11_def marker_eval)

section \<open>The claims\<close>

text \<open>
  C1. \<open>clean_csv_line\<close> returns the 21 parts \<open>parts[i .. i+20]\<close> of the cleaned,
  comma-split and trimmed parts for the smallest offset \<open>i\<close> at which the greedy
  numeric run reaches 21 values, whatever follows them. In particular, when the parts
  are \<open>k\<close> non-numeric tokens followed by exactly 21 numeric tokens, it returns those
  21 tokens, for every \<open>k\<close>; and so it does on the line that joins such tokens with
  commas, the tokens being plain.
\<close>

theorem clean_csv_line_earliest_run:
  "(\<forall>i. 21 \<le> run_length rt (csv_parts line) i \<and> (\<forall>j<i. run_length rt (csv_parts line) j < 21)
      \<longrightarrow> clean_csv_line rt line = Some (take 21 (drop i (csv_parts line)))) \<and>
   (\<forall>ks ns. csv_parts line = ks @ ns \<and> (\<forall>t \<in> set ks. \<not> is_numeric rt t) \<and>
      length ns = 21 \<and> (\<forall>t \<in> set ns. is_numeric rt t)
      \<longrightarrow> clean_csv_line rt line = Some ns) \<and>
   (\<forall>ks ns. (\<forall>t \<in> set (ks @ ns). plain_token t) \<and> (\<forall>t \<in> set ks. \<not> is_numeric rt t) \<and>
      length ns = 21 \<and> (\<forall>t \<in> set ns. is_numeric rt t)
      \<longrightarrow> clean_csv_line rt (join_comma (ks @ ns)) = Some ns)"
  using clean_csv_line_first_run[of rt line] clean_csv_line_after_junk[of line _ _ rt]
    clean_csv_line_joined[of _ _ rt]
  by blast

theorem clean_csv_line_earliest_run_witness:
  "21 \<le> run_length ascii_runtime (csv_parts padded_line) 2 \<and>
   run_length ascii_runtime (csv_parts padded_line) 0 < 21 \<and>
   run_length ascii_runtime (csv_parts padded_line) 1 < 21 \<and>
   clean_csv_line ascii_runtime padded_line = Some shifted_record \<and>
   csv_parts shifted_line = map cps [''x'', ''y''] @ shifted_record \<and>
   list_all (\<lambda>t. \<not> is_numeric ascii_runtime t) (map cps [''x'', ''y'']) \<and>
   length shifted_record = 21 \<and>
   list_all (is_numeric ascii_runtime) shifted_record \<and>
   clean_csv_line ascii_runtime shifted_line = Some shifted_record \<and>
   list_all plain_token (map cps [''x'', ''y''] @ shifted_record) \<and>
   clean_csv_line ascii_runtime (join_comma (map cps [''x'', ''y''] @ shifted_record)) =
     Some shifted_record"
proof -
  have reach: "21 \<le> run_length ascii_runtime (csv_parts padded_line) 2"
    by (simp add: run_length_padded_line)
  have before: "\<forall>j<2. run_length ascii_runtime (csv_parts padded_line) j < 21"
    by (simp add: less_2_cases_iff run_length_padded_line)
  have len: "length shifted_record = 21"
    by (simp add: shifted_record_def)
  have plain: "\<forall>t \<in> set (map cps [''x'', ''y''] @ shifted_record). plain_token t"
    using shifted_line_plain by (simp only: list_all_iff)
  note inst = clean_csv_line_earliest_run[of ascii_runtime]
  have "clean_csv_line ascii_runtime padded_line = Some shifted_record"
    using inst[of padded_line, THEN conjunct1, rule_format, of 2] reach before
    by (simp add: take_padded_line)
  moreover have "clean_csv_line ascii_runtime shifted_line = Some shifted_record"
    using inst[of shifted_line, THEN conjunct2, THEN conjunct1, rule_format,
        of "map cps [''x'', ''y'']" shifted_record]
      csv_parts_shifted_line non_numeric_xy len numeric_shifted_record
    by blast
  moreover have "clean_csv_line ascii_runtime (join_comma (map cps [''x'', ''y''] @ shifted_record)) =
      Some shifted_record"
    using inst[of shifted_line, THEN conjunct2, THEN conjunct2, rule_format,
        of "map cps [''x'', ''y'']" shifted_record]
      plain non_numeric_xy len numeric_shifted_record
    by blast
  ultimately show ?thesis
    using reach before csv_parts_shifted_line non_numeric_xy len numeric_shifted_record
      shifted_line_plain
    by (simp add: list_all_iff)
qed

text \<open>
  C2. Whenever \<open>clean_csv_line\<close> returns a record, the record has exactly 21 elements
  and \<open>is_numeric\<close> holds of each.
\<close>

theorem clean_csv_line_sound:
  "clean_csv_line rt line = Some r \<Longrightarrow> length r = 21 \<and> (\<forall>t \<in> set r. is_numeric rt t)"
  using clean_csv_line_Some[of rt line r] by blast

theorem clean_csv_line_sound_witness:
  "clean_csv_line ascii_runtime padded_line = Some shifted_record \<and>
   length shifted_record = 21 \<and> list_all (is_numeric ascii_runtime) shifted_record"
  using clean_csv_line_sound[OF clean_csv_line_padded_line] clean_csv_line_padded_line
  by (simp add: list_all_iff)

text \<open>
  C3. A line whose cleaned, lowercased text contains a denylisted keyword is never a
  candidate: \<open>is_csv_data_line\<close> returns false through its keyword exit (\<open>Noise\<close>),
  whatever the number of parts and however many of them are numeric, because the
  keyword test comes before the width test and the numeric-share test. With the marker
  test of \<open>main\<close> in front, the line is \<open>Noise\<close> unless it is a header line.
\<close>

theorem keyword_is_noise:
  "has_noise_keyword rt (clean_text line) \<Longrightarrow>
     \<not> is_csv_data_line rt line \<and> classify_data rt line = Noise \<and>
     classify rt line \<noteq> Candidate \<and>
     (\<not> contains MARKER line \<longrightarrow> classify rt line = Noise)"
  by (simp add: is_csv_data_line_iff classify_data_cases classify_def)

theorem keyword_is_noise_witness:
  "has_noise_keyword ascii_runtime (clean_text noisy_line) \<and>
   part_count noisy_line = 21 \<and> numeric_count ascii_runtime noisy_line = 20 \<and>
   \<not> is_csv_data_line ascii_runtime noisy_line \<and>
   classify_data ascii_runtime noisy_line = Noise \<and>
   \<not> contains MARKER noisy_line \<and>
   classify ascii_runtime noisy_line = Noise"
  using keyword_is_noise[OF noisy_line_facts(1)] noisy_line_facts example_lines_no_marker(1)
  by simp

text \<open>
  C4. If the header marker occurs in one or more lines of a session that starts without
  a header written, exactly one header row is written, \<open>Timestamp\<close> followed by the 21
  field names, wherever and however often the marker occurs. A line with the marker
  that comes when the header is already written is dropped: no output, no change of
  state.
\<close>

theorem header_written_once:
  "(\<not> header_written st \<and> (\<exists>ev \<in> set evs. marker_event ev) \<longrightarrow>
      filter is_header_row (snd (main_loop rt st evs)) = [HeaderRow (TIMESTAMP # EXPECTED_HEADER)]) \<and>
   (header_written st \<and> contains MARKER raw \<longrightarrow>
      main_step rt st (Line raw stamp now) = (st, []))"
  using main_loop_header_once[of st evs rt] main_step_repeated_marker[of st raw rt stamp now]
  by blast

theorem header_written_once_witness:
  "\<not> header_written (initial_session 0) \<and> list_ex marker_event session_events \<and>
   filter is_header_row (snd (main_loop ascii_runtime (initial_session 0) session_events)) =
     [HeaderRow (TIMESTAMP # EXPECTED_HEADER)] \<and>
   header_written (initial_session 0\<lparr>header_written := True\<rparr>) \<and> contains MARKER header_line \<and>
   main_step ascii_runtime (initial_session 0\<lparr>header_written := True\<rparr>) (Line header_line stamp0 4) =
     (initial_session 0\<lparr>header_written := True\<rparr>, [])"
  using header_written_once[of "initial_session 0" session_events ascii_runtime]
    header_written_once[of "initial_session 0\<lparr>header_written := True\<rparr>" _ _ header_line stamp0 4]
    session_events_marker header_line_marker
  by (simp add: initial_session_def list_ex_iff)

text \<open>
  C5. As stated the claim fails for the header decision: \<open>main\<close> looks for the marker in
  the line as read, with its control characters. A header line with \<open>\x01\<close> inside the
  marker is \<open>Unrecognized\<close>, and the same line with the control character stripped is
  \<open>Header\<close>.
\<close>

theorem control_characters_counterexample:
  "clean_text broken_header = MARKER \<and>
   classify ascii_runtime broken_header = Unrecognized \<and>
   classify ascii_runtime (clean_text broken_header) = Header"
proof -
  have "classify ascii_runtime broken_header = Unrecognized"
    by (simp add: classify_def classify_data_cases broken_header_facts(2,4,5))
  moreover have "classify ascii_runtime (clean_text broken_header) = Header"
    by (simp add: classify_def broken_header_facts(1,3))
  ultimately show ?thesis
    using broken_header_facts(1) by blast
qed

text \<open>
  C5, as the program has it. The outcome of \<open>is_csv_data_line\<close> (\<open>Noise\<close>, \<open>Candidate\<close>
  or \<open>Unrecognized\<close>) is a function only of the line after trimming and stripping the
  control characters of \<open>0x00\<close>-\<open>0x1F\<close> and \<open>0x7F\<close>-\<open>0x9F\<close>: two lines with the same
  cleaned text get the same outcome, and, lower-casing commuting with trimming as
  \<open>str.lower\<close> does, a line and its cleaned form get the same outcome. The header
  decision is not among them: it is taken on the line as read.
\<close>

theorem data_classification_of_cleaned:
  "(clean_text l1 = clean_text l2 \<longrightarrow>
      classify_data rt l1 = classify_data rt l2 \<and>
      is_csv_data_line rt l1 = is_csv_data_line rt l2) \<and>
   ((\<forall>s. str_lower rt (py_strip s) = py_strip (str_lower rt s)) \<longrightarrow>
      classify_data rt (clean_text line) = classify_data rt line \<and>
      is_csv_data_line rt (clean_text line) = is_csv_data_line rt line) \<and>
   (classify rt line = Header \<longleftrightarrow> contains MARKER line)"
  using classify_data_same_clean_text[of l1 l2 rt] classify_data_clean_text[of rt line]
    classify_data_not_Header[of rt line]
  by (simp add: is_csv_data_line_iff classify_def)

theorem data_classification_of_cleaned_witness:
  "clean_text garbled_line = clean_text line15 \<and>
   classify_data ascii_runtime garbled_line = classify_data ascii_runtime line15 \<and>
   (\<forall>s. str_lower ascii_runtime (py_strip s) = py_strip (str_lower ascii_runtime s)) \<and>
   clean_text (clean_text framed_line) \<noteq> clean_text framed_line \<and>
   classify_data ascii_runtime (clean_text framed_line) = classify_data ascii_runtime framed_line"
proof -
  have lower: "\<forall>s. str_lower ascii_runtime (py_strip s) = py_strip (str_lower ascii_runtime s)"
    by (simp add: str_lower_ascii_runtime ascii_lower_py_strip)
  have "clean_text (clean_text framed_line) \<noteq> clean_text framed_line"
    by (simp add: framed_line_clean)
  then show ?thesis
    using data_classification_of_cleaned[of garbled_line line15 ascii_runtime framed_line]
      garbled_line_clean lower
    by blast
qed

text \<open>
  C6. The claim asks for one summary for each 15-unit window that has passed, counting
  the records of that window, looked for after every processed line. A session that
  starts at clock 0 shows what the loop does instead: four records at 1, 2, 3 and 4, a
  status line at 20, a record at 50. The status line leads to no summary although 15
  units have passed. At 50 three windows have passed and the loop prints one summary,
  \<open>Received 5 messages in the last 15 seconds\<close>, for records received over 50 units,
  and moves \<open>last_summary_time\<close> to 50.
\<close>

theorem summary_cadence_failing_input:
  "15 \<le> float_sub 20 (last_summary_time (initial_session 0)) \<and>
   3 * 15 \<le> float_sub 50 (last_summary_time (initial_session 0)) \<and>
   main_loop ascii_runtime (initial_session 0) quiet_session_events =
     (\<lparr>header_written = False, csv_message_count = 0, last_summary_time = 50\<rparr>,
      [DataRow (stamp0 # shifted_record), DataRow (stamp0 # shifted_record),
       DataRow (stamp0 # shifted_record), DataRow (stamp0 # shifted_record),
       Stm32 boot_line,
       DataRow (stamp0 # shifted_record), Summary 5])"
  by (simp add: quiet_session_events_def boot_line_step shifted_line_step initial_session_def
      float_sub_values)

text \<open>
  C7. When a line is classified \<open>Candidate\<close> and \<open>clean_csv_line\<close> returns \<open>None\<close>, the
  turn prints the parse error and nothing else: no row is written and
  \<open>header_written\<close>, \<open>csv_message_count\<close> and \<open>last_summary_time\<close> keep their values.
  The loop goes on with the next turn from the unchanged state: the line is not tried
  again.
\<close>

theorem parse_error_only:
  "classify rt (py_strip raw) = Candidate \<Longrightarrow> clean_csv_line rt (py_strip raw) = None \<Longrightarrow>
     main_step rt st (Line raw stamp now) = (st, [ParseError (py_strip raw)]) \<and>
     main_loop rt st (Line raw stamp now # evs) =
       (fst (main_loop rt st evs), ParseError (py_strip raw) # snd (main_loop rt st evs))"
  by (simp add: main_step_candidate split: prod.splits)

theorem parse_error_only_witness:
  "classify ascii_runtime (py_strip line15) = Candidate \<and>
   clean_csv_line ascii_runtime (py_strip line15) = None \<and>
   main_step ascii_runtime (initial_session 0) (Line line15 stamp0 20) =
     (initial_session 0, [ParseError line15]) \<and>
   main_loop ascii_runtime (initial_session 0) [Line line15 stamp0 20] =
     (initial_session 0, [ParseError line15])"
  using parse_error_only[of ascii_runtime line15 "initial_session 0" stamp0 20 "[]"]
  by (simp add: line15_candidate)

text \<open>
  C8. A line without denylisted keyword whose cleaned text splits into fewer than 15 or
  more than 25 parts is \<open>Unrecognized\<close> (\<open>is_csv_data_line\<close> returns false); with 15 to
  25 parts, both bounds included, all of them numeric, it is \<open>Candidate\<close>. So 14
  numeric parts are \<open>Unrecognized\<close> and 15 are \<open>Candidate\<close>. The outcomes are those of
  \<open>is_csv_data_line\<close>, and of the whole classification when the line is no header line.
\<close>

theorem width_band:
  "\<not> has_noise_keyword rt (clean_text line) \<Longrightarrow>
     (part_count line < 15 \<or> 25 < part_count line \<longrightarrow>
        \<not> is_csv_data_line rt line \<and> classify_data rt line = Unrecognized \<and>
        (\<not> contains MARKER line \<longrightarrow> classify rt line = Unrecognized)) \<and>
     (15 \<le> part_count line \<and> part_count line \<le> 25 \<and>
      numeric_count rt line = part_count line \<longrightarrow>
        is_csv_data_line rt line \<and> classify_data rt line = Candidate \<and>
        (\<not> contains MARKER line \<longrightarrow> classify rt line = Candidate))"
  by (auto simp: is_csv_data_line_iff classify_data_cases threshold_in_band classify_def)

theorem width_band_witness:
  "part_count line14 = 14 \<and> numeric_count ascii_runtime line14 = 14 \<and>
   \<not> is_csv_data_line ascii_runtime line14 \<and>
   classify ascii_runtime line14 = Unrecognized \<and>
   part_count line15 = 15 \<and> numeric_count ascii_runtime line15 = 15 \<and>
   is_csv_data_line ascii_runtime line15 \<and>
   classify ascii_runtime line15 = Candidate \<and>
   part_count line25 = 25 \<and> numeric_count ascii_runtime line25 = 25 \<and>
   is_csv_data_line ascii_runtime line25 \<and>
   classify ascii_runtime line25 = Candidate \<and>
   part_count line26 = 26 \<and> numeric_count ascii_runtime line26 = 26 \<and>
   \<not> is_csv_data_line ascii_runtime line26 \<and>
   classify ascii_runtime line26 = Unrecognized"
  using width_band[OF line14_facts(1)] width_band[OF line15_facts(1)]
    width_band[OF line25_facts(1)] width_band[OF line26_facts(1)]
  by (simp add: line14_facts line15_facts line25_facts line26_facts example_lines_no_marker)

text \<open>
  C9. For a line without denylisted keyword and with 15 to 25 parts, \<open>is_csv_data_line\<close>
  returns true exactly when the numeric parts (each trimmed before the test) are at
  least the fraction 0.8 of all parts. Exactly 80 percent is \<open>Candidate\<close>; one numeric
  part fewer is \<open>Unrecognized\<close>. The outcomes are those of \<open>is_csv_data_line\<close>, and of
  the whole classification when the line is no header line.
\<close>

theorem numeric_share:
  "\<not> has_noise_keyword rt (clean_text line) \<Longrightarrow>
   15 \<le> part_count line \<Longrightarrow> part_count line \<le> 25 \<Longrightarrow>
     (is_csv_data_line rt line \<longleftrightarrow>
        (4 / 5 :: rat) \<le> of_nat (numeric_count rt line) / of_nat (part_count line)) \<and>
     classify_data rt line =
       (if (4 / 5 :: rat) \<le> of_nat (numeric_count rt line) / of_nat (part_count line)
        then Candidate else Unrecognized) \<and>
     (\<not> contains MARKER line \<longrightarrow>
        classify rt line =
          (if (4 / 5 :: rat) \<le> of_nat (numeric_count rt line) / of_nat (part_count line)
           then Candidate else Unrecognized))"
proof -
  assume kw: "\<not> has_noise_keyword rt (clean_text line)"
    and lo: "15 \<le> part_count line" and hi: "part_count line \<le> 25"
  let ?k = "numeric_count rt line" and ?n = "part_count line"
  have pos: "(0::rat) < of_nat ?n" using lo by simp
  have "(4 / 5 :: rat) \<le> of_nat ?k / of_nat ?n \<longleftrightarrow> (4 / 5 :: rat) * of_nat ?n \<le> of_nat ?k"
    using pos by (simp add: pos_le_divide_eq)
  also have "\<dots> \<longleftrightarrow> (of_nat (4 * ?n) :: rat) \<le> of_nat (5 * ?k)"
    by (simp add: mult.commute)
  also have "\<dots> \<longleftrightarrow> 4 * ?n \<le> 5 * ?k"
    by (simp only: of_nat_le_iff)
  finally have share: "(4 / 5 :: rat) \<le> of_nat ?k / of_nat ?n \<longleftrightarrow> \<not> 5 * ?k < 4 * ?n"
    by (simp add: not_less)
  have cls: "classify_data rt line = (if 5 * ?k < 4 * ?n then Unrecognized else Candidate)"
    using kw lo hi by (simp add: classify_data_cases threshold_in_band)
  show ?thesis
    unfolding is_csv_data_line_iff cls share by (simp add: classify_no_marker cls)
qed

theorem numeric_share_witness:
  "part_count line15_12 = 15 \<and> numeric_count ascii_runtime line15_12 = 12 \<and>
   is_csv_data_line ascii_runtime line15_12 \<and>
   classify ascii_runtime line15_12 = Candidate \<and>
   part_count line15_11 = 15 \<and> numeric_count ascii_runtime line15_11 = 11 \<and>
   \<not> is_csv_data_line ascii_runtime line15_11 \<and>
   classify ascii_runtime line15_11 = Unrecognized"
  using numeric_share[OF line15_12_facts(1)] numeric_share[OF line15_11_facts(1)]
  by (simp add: line15_12_facts line15_11_facts example_lines_no_marker)

text \<open>
  C10. With fewer than 21 parts \<open>clean_csv_line\<close> returns \<open>None\<close>. So a line classified
  \<open>Candidate\<close> that has 15 to 20 parts ends as a parse error: the state is unchanged
  and no row is written.
\<close>

theorem short_line_is_parse_error:
  "(part_count line < 21 \<longrightarrow> clean_csv_line rt line = None) \<and>
   (classify rt (py_strip raw) = Candidate \<and>
    15 \<le> part_count (py_strip raw) \<and> part_count (py_strip raw) \<le> 20 \<longrightarrow>
      main_step rt st (Line raw stamp now) = (st, [ParseError (py_strip raw)]))"
proof (intro conjI impI)
  assume "part_count line < 21"
  then show "clean_csv_line rt line = None"
    by (intro clean_csv_line_short) (simp add: length_csv_parts)
next
  assume a: "classify rt (py_strip raw) = Candidate \<and>
    15 \<le> part_count (py_strip raw) \<and> part_count (py_strip raw) \<le> 20"
  then have "clean_csv_line rt (py_strip raw) = None"
    by (intro clean_csv_line_short) (simp add: length_csv_parts)
  with a show "main_step rt st (Line raw stamp now) = (st, [ParseError (py_strip raw)])"
    by (simp add: main_step_candidate)
qed

theorem short_line_is_parse_error_witness:
  "part_count line15_12 < 21 \<and> clean_csv_line ascii_runtime line15_12 = None \<and>
   classify ascii_runtime (py_strip line15_12) = Candidate \<and>
   15 \<le> part_count (py_strip line15_12) \<and> part_count (py_strip line15_12) \<le> 20 \<and>
   main_step ascii_runtime (initial_session 0) (Line line15_12 stamp0 3) =
     (initial_session 0, [ParseError line15_12])"
  using short_line_is_parse_error[of line15_12 ascii_runtime line15_12 "initial_session 0" stamp0 3]
  by (simp add: line15_12_candidate line15_12_facts)

end
